theory Spec2Isabelle
  imports Main "HOL-Library.Word"
begin

unbundle bit_operations_syntax

section \<open>Bytes, byte sources and errors\<close>

type_synonym byte = "8 word"
type_synonym uint16 = "16 word"
type_synonym int16 = "16 word"
type_synonym uint32 = "32 word"
type_synonym uint64 = "64 word"

text \<open>
  A byte source (Go's \<open>io.Reader\<close>) is modelled as the list of bytes it still has to
  deliver: \<open>Read\<close> into a buffer of \<open>k\<close> bytes delivers the next \<open>k\<close> bytes, or all
  that is left when that is less, and reports \<open>io.EOF\<close> when nothing is left.

  Every failure of the package is a value of the type \<open>error\<close>, one constructor for
  each message of the source; a wrapper carries the error it wraps.
  \<^item> \<open>EOF\<close>, \<open>UnexpectedEOF\<close>: \<open>io.EOF\<close> and \<open>io.ErrUnexpectedEOF\<close>;
  \<^item> \<open>TruncatedVarint\<close>: "EOF in the middle of varint";
  \<^item> \<open>TruncatedEvent\<close>: "EOF in the middle of event";
  \<^item> \<open>ShortRead\<close>: "expected ..., read failed" of \<open>readLiteralExpecting\<close> and
    "expected chunk of length ..., read failed" of \<open>parseSizedChunk\<close>;
  \<^item> \<open>UnexpectedLiteral\<close>: "expected ..., read ...";
  \<^item> \<open>ReadError\<close>: "read error: ...";
  \<^item> \<open>RunningStatusInterrupted\<close>: "running status changed ... in the middle of event";
  \<^item> \<open>UnknownRunningStatus\<close>: "no MIDI event spec for running status ...";
  \<^item> \<open>MidiPayloadOverflow\<close>: "MIDI event ... already too long for expected length ...";
  \<^item> \<open>AfterConsuming\<close>: "after consuming ... event byte(s): ...";
  \<^item> \<open>MidiPayloadLengthMismatch\<close>: "...: want length ..., got ...";
  \<^item> \<open>EmptySysexEvent\<close>: "empty SysexEvent";
  \<^item> \<open>EncodingUnsupported\<close>: "encoding not implemented for ...";
  \<^item> \<open>ErrorEncodingEvent\<close>, \<open>ErrorEncodingTrack\<close>: "error encoding event #...",
    "error encoding track #...";
  \<^item> \<open>ErrorReadingTimeDelta\<close>, \<open>ErrorParsingEvent\<close>, \<open>ErrorParsingHeader\<close>,
    \<open>ErrorParsingTrack\<close>: "error reading time-delta: ...", "error parsing event: ...",
    "error parsing header: ...", "error parsing track ...: ...";
  \<^item> \<open>UnknownChunk\<close>: "saw non-MIDI track: ...";
  \<^item> \<open>NoMidiTracks\<close>: "no MIDI tracks found: first track error: ...";
  \<^item> \<open>WithContext\<close>: "after ... bytes (last: ...): ..." of the context reader.
\<close>

datatype error =
    EOF
  | UnexpectedEOF
  | TruncatedVarint
  | TruncatedEvent
  | UnexpectedLiteral "byte list" "byte list"
  | ShortRead
  | ReadError error
  | RunningStatusInterrupted byte byte "byte list"
  | UnknownRunningStatus byte
  | MidiPayloadOverflow byte nat "byte list"
  | AfterConsuming uint64 error
  | MidiPayloadLengthMismatch byte nat nat
  | EmptySysexEvent
  | EncodingUnsupported
  | ErrorEncodingEvent nat error
  | ErrorEncodingTrack nat error
  | ErrorReadingTimeDelta error
  | ErrorParsingEvent error
  | ErrorParsingHeader error
  | UnknownChunk error
  | ErrorParsingTrack nat error
  | NoMidiTracks "error option"
  | WithContext error

section \<open>Variable-length quantities\<close>

text \<open>
  \<open>readVarint\<close>: the loop reads one byte at a time, ORs its low seven bits into \<open>rv\<close>,
  stops at a byte whose high bit is clear and shifts \<open>rv\<close> left by seven otherwise.
  At the end of the source it reports "EOF in the middle of varint" when \<open>rv \<noteq> 0\<close>
  and the plain \<open>io.EOF\<close> otherwise. The result carries the rest of the source.
\<close>

fun readVarintLoop :: "uint64 \<Rightarrow> byte list \<Rightarrow> error + (uint64 \<times> byte list)" where
  "readVarintLoop rv [] = (if rv \<noteq> 0 then Inl TruncatedVarint else Inl EOF)"
| "readVarintLoop rv (b # r) =
     (let rv' = rv OR ucast (b AND 0x7f) in
      if b AND 0x80 = 0 then Inr (rv', r)
      else readVarintLoop (push_bit 7 rv') r)"

definition readVarint :: "byte list \<Rightarrow> error + (uint64 \<times> byte list)" where
  "readVarint r = readVarintLoop 0 r"

text \<open>
  \<open>encodeVarint\<close>: the first loop collects the septets of \<open>n\<close>, least significant
  first, into \<open>rrv\<close>; the second loop walks \<open>rrv\<close> from its last index down to 0 and
  sets the high bit on every byte but the one at index 0.
\<close>

function encodeVarintSeptets :: "uint64 \<Rightarrow> byte list \<Rightarrow> byte list" where
  "encodeVarintSeptets n rrv =
     (if n > 0 then encodeVarintSeptets (drop_bit 7 n) (rrv @ [ucast (n AND 0x7f)])
      else rrv)"
  by pat_completeness auto
termination
proof (relation "measure (\<lambda>(n, rrv). unat n)")
  show "wf (measure (\<lambda>(n :: uint64, rrv :: byte list). unat n))"
    by simp
next
  fix n :: uint64 and rrv :: "byte list"
  assume "0 < n"
  then have "0 < unat n"
    by (simp add: word_less_nat_alt)
  then have "unat n div 2 ^ 7 < unat n"
    by simp
  then show "((drop_bit 7 n, rrv @ [ucast (n AND 0x7f)]), (n, rrv))
      \<in> measure (\<lambda>(n, rrv). unat n)"
    by (simp add: drop_bit_eq_div unat_div)
qed

declare encodeVarintSeptets.simps [simp del]

text \<open>The counter \<open>k\<close> of \<open>encodeVarintEmit\<close> is \<open>i + 1\<close> for the source's index \<open>i\<close>.\<close>

fun encodeVarintEmit :: "byte list \<Rightarrow> nat \<Rightarrow> byte list \<Rightarrow> byte list" where
  "encodeVarintEmit rrv 0 rv = rv"
| "encodeVarintEmit rrv (Suc i) rv =
     encodeVarintEmit rrv i (rv @ [if i \<noteq> 0 then (rrv ! i) OR 0x80 else rrv ! i])"

definition encodeVarint :: "uint64 \<Rightarrow> byte list" where
  "encodeVarint n =
     (if n = 0 then [0]
      else let rrv = encodeVarintSeptets n [] in encodeVarintEmit rrv (length rrv) [])"


section \<open>Raw events and the event parser\<close>

datatype eventType = midiEvent | sysexEvent | metaEvent | timeDeltaEvent

datatype parserState =
  wantEvent | wantMetaType | wantMetaLength | wantMetaData | wantSysexLength | wantSysexData

text \<open>
  Byte slices are lists; the \<open>nil\<close> slice is the empty list. Go's \<open>int\<close> registers
  \<open>metaLength\<close> and \<open>sysexLength\<close> are 64-bit words read as signed numbers.
\<close>

record event =
  kind :: eventType
  typeByte :: byte
  data :: "byte list"
  timeDelta :: uint64

record eventDataParser =
  state :: parserState
  bytesFed :: uint64
  runningStatus :: byte
  eventData :: "byte list"
  metaEventType :: byte
  metaLength :: uint64
  currentSysexType :: byte
  sysexLength :: uint64
  sysexData :: "byte list"
  events :: "event list"

text \<open>The zero value \<open>&eventDataParser{}\<close>.\<close>

definition newEventDataParser :: eventDataParser where
  "newEventDataParser =
     \<lparr>state = wantEvent, bytesFed = 0, runningStatus = 0, eventData = [],
      metaEventType = 0, metaLength = 0, currentSysexType = 0, sysexLength = 0,
      sysexData = [], events = []\<rparr>"

definition addTimeDelta :: "eventDataParser \<Rightarrow> uint64 \<Rightarrow> eventDataParser" where
  "addTimeDelta p dt =
     p\<lparr>events := events p @ [\<lparr>kind = timeDeltaEvent, typeByte = 0, data = [], timeDelta = dt\<rparr>]\<rparr>"

record midiEventSpec =
  name :: string
  dataLen :: nat

definition midiEventSpecs :: "nat \<rightharpoonup> midiEventSpec" where
  "midiEventSpecs = map_of
     [(0x8, \<lparr>name = ''NoteOff'', dataLen = 2\<rparr>),
      (0x9, \<lparr>name = ''NoteOn'', dataLen = 2\<rparr>),
      (0xA, \<lparr>name = ''Aftertouch'', dataLen = 2\<rparr>),
      (0xB, \<lparr>name = ''ControllerChange/ChannelMode'', dataLen = 2\<rparr>),
      (0xC, \<lparr>name = ''ProgramChange'', dataLen = 1\<rparr>),
      (0xD, \<lparr>name = ''ChannelKeyPressure'', dataLen = 1\<rparr>),
      (0xE, \<lparr>name = ''PitchBend'', dataLen = 2\<rparr>)]"

text \<open>
  The parser's methods take the parser and return the updated one; an error aborts the
  track, so a failing call returns the error only. The boolean is the source's
  end-of-event flag.
\<close>

definition feedMIDIDataByte :: "eventDataParser \<Rightarrow> byte \<Rightarrow> error + (bool \<times> eventDataParser)" where
  "feedMIDIDataByte p b =
     (let nibble = unat (drop_bit 4 (runningStatus p AND 0xf0)) in
      case midiEventSpecs nibble of
        None \<Rightarrow> Inl (UnknownRunningStatus (runningStatus p))
      | Some spec \<Rightarrow>
          let p1 = p\<lparr>eventData := eventData p @ [b]\<rparr> in
          if length (eventData p1) = dataLen spec then
            Inr (True,
              p1\<lparr>events := events p1 @
                     [\<lparr>kind = midiEvent, typeByte = runningStatus p1,
                       data = eventData p1, timeDelta = 0\<rparr>],
                  eventData := []\<rparr>)
          else if length (eventData p1) \<ge> dataLen spec then
            Inl (MidiPayloadOverflow (runningStatus p1) (dataLen spec) (eventData p1))
          else Inr (False, p1))"

definition flushSysexEvent :: "eventDataParser \<Rightarrow> eventDataParser" where
  "flushSysexEvent p =
     p\<lparr>events := events p @
            [\<lparr>kind = sysexEvent, typeByte = currentSysexType p,
              data = sysexData p, timeDelta = 0\<rparr>],
       state := wantEvent,
       sysexData := [],
       currentSysexType := 0\<rparr>"

definition feedByteInternal :: "eventDataParser \<Rightarrow> byte \<Rightarrow> error + (bool \<times> eventDataParser)" where
  "feedByteInternal p b =
     (case state p of
        wantEvent \<Rightarrow>
          if b = 0xFF then Inr (False, p\<lparr>state := wantMetaType\<rparr>)
          else if b = 0xF0 \<or> b = 0xF7 then
            Inr (False,
              p\<lparr>currentSysexType := b, state := wantSysexLength,
                sysexLength := 0, sysexData := []\<rparr>)
          else if b AND 0x80 \<noteq> 0 then
            (if length (eventData p) > 0
             then Inl (RunningStatusInterrupted (runningStatus p) b (eventData p))
             else Inr (False, p\<lparr>runningStatus := b\<rparr>))
          else feedMIDIDataByte p b
      | wantMetaType \<Rightarrow>
          Inr (False,
            p\<lparr>metaEventType := b, state := wantMetaLength, metaLength := 0, eventData := []\<rparr>)
      | wantSysexLength \<Rightarrow>
          (let p1 = p\<lparr>sysexLength := push_bit 7 (sysexLength p) OR (ucast b AND 0x7F)\<rparr>;
               p2 = (if b AND 0x80 = 0 then p1\<lparr>state := wantSysexData\<rparr> else p1) in
           if sysexLength p2 = 0 then Inr (True, flushSysexEvent p2)
           else Inr (False, p2))
      | wantSysexData \<Rightarrow>
          (let p1 = p\<lparr>sysexData := sysexData p @ [b]\<rparr> in
           if int (length (sysexData p1)) = sint (sysexLength p1)
           then Inr (True, flushSysexEvent p1)
           else Inr (False, p1))
      | wantMetaLength \<Rightarrow>
          (let p1 = p\<lparr>metaLength := push_bit 7 (metaLength p) OR (ucast b AND 0x7F)\<rparr>;
               p2 = (if b AND 0x80 = 0 then p1\<lparr>state := wantMetaData\<rparr> else p1) in
           if metaLength p2 = 0 then
             Inr (True,
               p2\<lparr>events := events p2 @
                      [\<lparr>kind = metaEvent, typeByte = metaEventType p2,
                        data = eventData p2, timeDelta = 0\<rparr>],
                   state := wantEvent,
                   eventData := []\<rparr>)
           else Inr (False, p2))
      | wantMetaData \<Rightarrow>
          (let p1 = p\<lparr>eventData := eventData p @ [b]\<rparr> in
           if int (length (eventData p1)) = sint (metaLength p1) then
             Inr (True,
               p1\<lparr>events := events p1 @
                      [\<lparr>kind = metaEvent, typeByte = metaEventType p1,
                        data = eventData p1, timeDelta = 0\<rparr>],
                   state := wantEvent,
                   eventData := []\<rparr>)
           else Inr (False, p1)))"

definition feedByte :: "eventDataParser \<Rightarrow> byte \<Rightarrow> error + (bool \<times> eventDataParser)" where
  "feedByte p b =
     (case feedByteInternal p b of
        Inl err \<Rightarrow> Inl (AfterConsuming (bytesFed p) err)
      | Inr (stopPoint, p') \<Rightarrow> Inr (stopPoint, p'\<lparr>bytesFed := bytesFed p' + 1\<rparr>))"

text \<open>
  \<open>readSingleEvent\<close>: feed one byte at a time until the parser signals the end of an
  event. The source at its end is \<open>io.EOF\<close> before the first byte and
  "EOF in the middle of event" after it.
\<close>

fun readSingleEventLoop ::
  "eventDataParser \<Rightarrow> bool \<Rightarrow> byte list \<Rightarrow> error + (eventDataParser \<times> byte list)" where
  "readSingleEventLoop p beganReading [] = (if beganReading then Inl TruncatedEvent else Inl EOF)"
| "readSingleEventLoop p beganReading (b # r) =
     (case feedByte p b of
        Inl err \<Rightarrow> Inl err
      | Inr (done, p') \<Rightarrow> if done then Inr (p', r) else readSingleEventLoop p' True r)"

definition readSingleEvent ::
  "eventDataParser \<Rightarrow> byte list \<Rightarrow> error + (eventDataParser \<times> byte list)" where
  "readSingleEvent p r = readSingleEventLoop p False r"


text \<open>
  \<open>parseTrackBody\<close>: for each event read a time delta, record it when it is not
  zero, and read one event. \<open>io.EOF\<close> from \<open>readVarint\<close> ends the track.
\<close>

lemma readVarintLoop_shorter:
  "readVarintLoop rv r = Inr (v, r') \<Longrightarrow> length r' < length r"
proof (induction r arbitrary: rv)
  case Nil
  then show ?case by (simp split: if_splits)
next
  case (Cons b r)
  show ?case
  proof (cases "b AND 0x80 = 0")
    case True
    with Cons.prems show ?thesis by (simp add: Let_def)
  next
    case False
    with Cons.prems have "length r' < length r"
      by (intro Cons.IH [of "push_bit 7 (rv OR ucast (b AND 0x7f))"]) (simp add: Let_def)
    then show ?thesis by simp
  qed
qed

lemma readSingleEventLoop_shorter:
  "readSingleEventLoop p began r = Inr (p', r') \<Longrightarrow> length r' < length r"
proof (induction r arbitrary: p began)
  case Nil
  then show ?case by (simp split: if_splits)
next
  case (Cons b r)
  from Cons.prems obtain stop p1 where fb: "feedByte p b = Inr (stop, p1)"
    by (auto split: sum.splits)
  show ?case
  proof (cases stop)
    case True
    with Cons.prems fb show ?thesis by simp
  next
    case False
    with Cons.prems fb have "length r' < length r"
      by (intro Cons.IH [of p1 True]) simp
    then show ?thesis by simp
  qed
qed

function parseTrackBodyLoop :: "eventDataParser \<Rightarrow> byte list \<Rightarrow> error + event list" where
  "parseTrackBodyLoop parser r =
     (case readVarint r of
        Inl err \<Rightarrow> if err = EOF then Inr (events parser) else Inl (ErrorReadingTimeDelta err)
      | Inr (td, r1) \<Rightarrow>
          (let parser1 = (if td > 0 then addTimeDelta parser td else parser) in
           case readSingleEvent parser1 r1 of
             Inl err \<Rightarrow> Inl (ErrorParsingEvent err)
           | Inr (parser2, r2) \<Rightarrow> parseTrackBodyLoop parser2 r2))"
  by pat_completeness auto
termination
proof (relation "measure (\<lambda>(parser, r). length r)")
  show "wf (measure (\<lambda>(parser :: eventDataParser, r :: byte list). length r))"
    by simp
next
  fix parser :: eventDataParser and r r1 r2 :: "byte list" and x2 parser1 x2a parser2
    and td :: uint64
  assume rv: "readVarint r = Inr x2" "(td, r1) = x2"
    and p1: "parser1 = (if 0 < td then addTimeDelta parser td else parser)"
    and rs: "readSingleEvent parser1 r1 = Inr x2a" "(parser2, r2) = x2a"
  from rv have "length r1 < length r"
    by (auto simp: readVarint_def dest: readVarintLoop_shorter)
  moreover from rs have "length r2 < length r1"
    by (auto simp: readSingleEvent_def dest: readSingleEventLoop_shorter)
  ultimately show "((parser2, r2), (parser, r)) \<in> measure (\<lambda>(parser, r). length r)"
    by simp
qed

declare parseTrackBodyLoop.simps [simp del]

definition parseTrackBody :: "byte list \<Rightarrow> error + event list" where
  "parseTrackBody r = parseTrackBodyLoop newEventDataParser r"

section \<open>Presented events\<close>

type_synonym TimeDeltaEvent = uint64
type_synonym SysexEvent = "byte list"

record MetaEvent =
  Type :: byte
  Data :: "byte list"

definition SetTempo :: byte where [simp]: "SetTempo = 0x51"

text \<open>
  \<open>GetTempo\<close> returns the pair of the source: the tempo in microseconds per
  quarter-note (an \<open>int64\<close>) and the flag that says whether there is one.
\<close>

definition GetTempo :: "MetaEvent \<Rightarrow> uint64 \<times> bool" where
  "GetTempo e =
     (if Type e = SetTempo \<or> length (Data e) \<noteq> 3 then (0, False)
      else (push_bit 16 (ucast (Data e ! 0)) OR push_bit 8 (ucast (Data e ! 1))
              OR ucast (Data e ! 2), True))"

definition NoteOn :: byte where [simp]: "NoteOn = 0x90"
definition NoteOff :: byte where [simp]: "NoteOff = 0x80"
definition Aftertouch :: byte where [simp]: "Aftertouch = 0xA0"
definition ControllerChange :: byte where [simp]: "ControllerChange = 0xB0"
definition ProgramChange :: byte where [simp]: "ProgramChange = 0xC0"
definition ChannelPressure :: byte where [simp]: "ChannelPressure = 0xD0"
definition PitchBend :: byte where [simp]: "PitchBend = 0xE0"

text \<open>
  \<open>MIDIEvent\<close>: the field \<open>Type\<close> of the source is \<open>MType\<close> here, since
  \<open>MetaEvent\<close> has a field of that name. The \<open>int\<close> fields hold byte values and are
  never computed with, so they are integers. \<open>EncodeMIDI\<close> tests \<open>RawData\<close> for
  \<open>nil\<close>, so \<open>RawData\<close> is an option, \<open>None\<close> for \<open>nil\<close>.
\<close>

record MIDIEvent =
  MType :: byte
  RawType :: byte
  Channel :: int
  Key :: int
  Velocity :: int
  ControllerNumber :: int
  ControllerValue :: int
  ProgramNumber :: int
  RawData :: "byte list option"

datatype Event =
    TimeDelta TimeDeltaEvent
  | Sysex SysexEvent
  | Meta MetaEvent
  | Midi MIDIEvent

text \<open>
  \<open>presentEvent\<close>. The parser never stores an empty slice that is not \<open>nil\<close>, so the
  data of a raw event is \<open>nil\<close> exactly when it is empty. The \<open>default\<close> branch of
  the source needs a \<open>kind\<close> outside the four constants, which \<open>eventType\<close> excludes.
\<close>

definition expectLen :: "MIDIEvent \<Rightarrow> nat \<Rightarrow> error option" where
  "expectLen rv n =
     (let l = (case RawData rv of None \<Rightarrow> 0 | Some d \<Rightarrow> length d) in
      if l \<noteq> n then Some (MidiPayloadLengthMismatch (MType rv) n l) else None)"

definition rawAt :: "MIDIEvent \<Rightarrow> nat \<Rightarrow> int" where
  "rawAt rv i = (case RawData rv of None \<Rightarrow> 0 | Some d \<Rightarrow> uint (d ! i))"

definition presentEvent :: "event \<Rightarrow> error + Event" where
  "presentEvent evt =
     (case kind evt of
        sysexEvent \<Rightarrow> Inr (Sysex ([typeByte evt] @ data evt))
      | metaEvent \<Rightarrow> Inr (Meta \<lparr>Type = typeByte evt, Data = data evt\<rparr>)
      | timeDeltaEvent \<Rightarrow> Inr (TimeDelta (timeDelta evt))
      | midiEvent \<Rightarrow>
          (let rv = \<lparr>MType = 0xf0 AND typeByte evt, RawType = typeByte evt,
                     Channel = uint (0x0f AND typeByte evt),
                     Key = 0, Velocity = 0, ControllerNumber = 0, ControllerValue = 0,
                     ProgramNumber = 0,
                     RawData = (if data evt = [] then None else Some (data evt))\<rparr> in
           if MType rv = NoteOn then
             (case expectLen rv 2 of Some err \<Rightarrow> Inl err
              | None \<Rightarrow>
                  let rv1 = rv\<lparr>Key := rawAt rv 0, Velocity := rawAt rv 1\<rparr> in
                  if Velocity rv1 = 0
                  then Inr (Midi (rv1\<lparr>MType := NoteOff, Velocity := 0x40\<rparr>))
                  else Inr (Midi rv1))
           else if MType rv = NoteOff then
             (case expectLen rv 2 of Some err \<Rightarrow> Inl err
              | None \<Rightarrow> Inr (Midi (rv\<lparr>Key := rawAt rv 0, Velocity := rawAt rv 1\<rparr>)))
           else if MType rv = Aftertouch then
             (case expectLen rv 2 of Some err \<Rightarrow> Inl err
              | None \<Rightarrow> Inr (Midi (rv\<lparr>Key := rawAt rv 0, Velocity := rawAt rv 1\<rparr>)))
           else if MType rv = ControllerChange then
             (case expectLen rv 2 of Some err \<Rightarrow> Inl err
              | None \<Rightarrow>
                  Inr (Midi (rv\<lparr>ControllerNumber := rawAt rv 0, ControllerValue := rawAt rv 1\<rparr>)))
           else if MType rv = ProgramChange then
             (case expectLen rv 1 of Some err \<Rightarrow> Inl err
              | None \<Rightarrow> Inr (Midi (rv\<lparr>ProgramNumber := rawAt rv 0\<rparr>)))
           else if MType rv = ChannelPressure then
             (case expectLen rv 1 of Some err \<Rightarrow> Inl err
              | None \<Rightarrow> Inr (Midi (rv\<lparr>Velocity := rawAt rv 0\<rparr>)))
           else if MType rv = PitchBend then
             (case expectLen rv 2 of Some err \<Rightarrow> Inl err
              | None \<Rightarrow> Inr (Midi rv))
           else Inr (Midi rv)))"

text \<open>The loop of \<open>parseTrack\<close> that presents the raw events of a track.\<close>

fun presentEvents :: "event list \<Rightarrow> Event list \<Rightarrow> error + Event list" where
  "presentEvents [] acc = Inr acc"
| "presentEvents (evt # rawEvents) acc =
     (case presentEvent evt of
        Inl err \<Rightarrow> Inl err
      | Inr presentable \<Rightarrow> presentEvents rawEvents (acc @ [presentable]))"


section \<open>The encoder\<close>

definition TimeDeltaEvent_EncodeMIDI :: "TimeDeltaEvent \<Rightarrow> error + byte list" where
  "TimeDeltaEvent_EncodeMIDI td = Inr (encodeVarint td)"

definition SysexEvent_EncodeMIDI :: "SysexEvent \<Rightarrow> error + byte list" where
  "SysexEvent_EncodeMIDI e =
     (if length e = 0 then Inl EmptySysexEvent
      else
        let rv = [e ! 0] @ encodeVarint (of_nat (length e - 1)) in
        Inr (if length e > 1 then rv @ drop 1 e else rv))"

definition MetaEvent_EncodeMIDI :: "MetaEvent \<Rightarrow> error + byte list" where
  "MetaEvent_EncodeMIDI e =
     Inr ([0xFF, Type e] @ encodeVarint (of_nat (length (Data e))) @ Data e)"

definition MIDIEvent_EncodeMIDI :: "MIDIEvent \<Rightarrow> error + byte list" where
  "MIDIEvent_EncodeMIDI e =
     (let rawData =
        (case RawData e of
           Some d \<Rightarrow> Inr d
         | None \<Rightarrow>
             if MType e = NoteOn then Inr [of_int (Key e), of_int (Velocity e)]
             else if MType e = NoteOff then Inr [of_int (Key e), of_int (Velocity e)]
             else Inl EncodingUnsupported) in
      case rawData of
        Inl err \<Rightarrow> Inl err
      | Inr d \<Rightarrow> Inr ([MType e OR of_int (Channel e)] @ d))"

fun EncodeMIDI :: "Event \<Rightarrow> error + byte list" where
  "EncodeMIDI (TimeDelta td) = TimeDeltaEvent_EncodeMIDI td"
| "EncodeMIDI (Sysex e) = SysexEvent_EncodeMIDI e"
| "EncodeMIDI (Meta e) = MetaEvent_EncodeMIDI e"
| "EncodeMIDI (Midi e) = MIDIEvent_EncodeMIDI e"

text \<open>
  \<open>encodeEvents\<close>: the loop state is the output \<open>rv\<close>, the pending \<open>delay\<close> and the
  index \<open>i\<close> of the event, which only the error message uses.
\<close>

fun encodeEventsLoop :: "byte list \<Rightarrow> uint64 \<Rightarrow> nat \<Rightarrow> Event list \<Rightarrow> error + byte list" where
  "encodeEventsLoop rv delay i [] = Inr rv"
| "encodeEventsLoop rv delay i (TimeDelta td # evts) =
     encodeEventsLoop rv (delay + td) (Suc i) evts"
| "encodeEventsLoop rv delay i (evt # evts) =
     (let rv1 = rv @ encodeVarint delay in
      case EncodeMIDI evt of
        Inl err \<Rightarrow> Inl (ErrorEncodingEvent i err)
      | Inr encoded \<Rightarrow> encodeEventsLoop (rv1 @ encoded) 0 (Suc i) evts)"

definition encodeEvents :: "Event list \<Rightarrow> error + byte list" where
  "encodeEvents evts = encodeEventsLoop [] 0 0 evts"

section \<open>File framing\<close>

record Header =
  Format :: uint16
  NumberOfTracks :: uint16
  Division :: int16

record Track =
  Events :: "Event list"

record File =
  Header :: Header
  Tracks :: "Track list"

text \<open>Big-endian integers, as \<open>encoding/binary\<close> writes and reads them.\<close>

definition putUint16 :: "uint16 \<Rightarrow> byte list" where
  "putUint16 v = [ucast (drop_bit 8 v), ucast v]"

definition putUint32 :: "uint32 \<Rightarrow> byte list" where
  "putUint32 v = [ucast (drop_bit 24 v), ucast (drop_bit 16 v), ucast (drop_bit 8 v), ucast v]"

definition getUint16 :: "byte list \<Rightarrow> uint16" where
  "getUint16 b = push_bit 8 (ucast (b ! 0)) OR ucast (b ! 1)"

definition getUint32 :: "byte list \<Rightarrow> uint32" where
  "getUint32 b =
     push_bit 24 (ucast (b ! 0)) OR push_bit 16 (ucast (b ! 1))
       OR push_bit 8 (ucast (b ! 2)) OR ucast (b ! 3)"

definition MThd :: "byte list" where
  "MThd = [0x4D, 0x54, 0x68, 0x64]"

definition MTrk :: "byte list" where
  "MTrk = [0x4D, 0x54, 0x72, 0x6B]"

definition Track_encode :: "Track \<Rightarrow> error + byte list" where
  "Track_encode t =
     (case encodeEvents (Events t) of
        Inl err \<Rightarrow> Inl err
      | Inr d \<Rightarrow> Inr (MTrk @ putUint32 (of_nat (length d)) @ d))"

definition Header_encode :: "Header \<Rightarrow> error + byte list" where
  "Header_encode h =
     Inr (MThd @ putUint32 6
            @ putUint16 (Format h) @ putUint16 (NumberOfTracks h) @ putUint16 (Division h))"

fun File_encodeTracks :: "byte list \<Rightarrow> nat \<Rightarrow> Track list \<Rightarrow> error + byte list" where
  "File_encodeTracks buf i [] = Inr buf"
| "File_encodeTracks buf i (trk # trks) =
     (case Track_encode trk of
        Inl err \<Rightarrow> Inl (ErrorEncodingTrack i err)
      | Inr d \<Rightarrow> File_encodeTracks (buf @ d) (Suc i) trks)"

definition File_encode :: "File \<Rightarrow> error + byte list" where
  "File_encode f =
     (case Header_encode (Header f) of
        Inl err \<Rightarrow> Inl err
      | Inr d \<Rightarrow> File_encodeTracks d 0 (Tracks f))"

text \<open>
  The read path. A failing read leaves the source where the read stopped, and the
  tolerant parser goes on reading there, so the functions that \<open>parseTrack\<close> calls
  before it knows the chunk return the rest of the source with the error.
  \<open>binary.Read\<close> wants all its bytes: it reports \<open>io.EOF\<close> when there is none and
  \<open>io.ErrUnexpectedEOF\<close> when there are too few.
\<close>

definition binaryReadUint32 :: "byte list \<Rightarrow> (error + uint32) \<times> byte list" where
  "binaryReadUint32 r =
     (if length r \<ge> 4 then (Inr (getUint32 (take 4 r)), drop 4 r)
      else if r = [] then (Inl EOF, [])
      else (Inl UnexpectedEOF, []))"

definition readLiteralExpecting :: "byte list \<Rightarrow> byte list \<Rightarrow> error option \<times> byte list" where
  "readLiteralExpecting r s =
     (let buf = take (length s) r; r' = drop (length s) r in
      if (r = [] \<and> length s > 0) \<or> length buf \<noteq> length s then (Some ShortRead, r')
      else if buf \<noteq> s then (Some (UnexpectedLiteral s buf), r')
      else (None, r'))"

definition parseSizedChunk :: "byte list \<Rightarrow> error + (byte list \<times> byte list)" where
  "parseSizedChunk r =
     (case binaryReadUint32 r of
        (Inl err, r1) \<Rightarrow> Inl err
      | (Inr len, r1) \<Rightarrow>
          let buf = take (unat len) r1 in
          if (r1 = [] \<and> unat len > 0) \<or> length buf \<noteq> unat len then Inl ShortRead
          else Inr (buf, drop (unat len) r1))"

definition parseHeader :: "byte list \<Rightarrow> error + (Header \<times> byte list)" where
  "parseHeader r =
     (case readLiteralExpecting r MThd of
        (Some err, r1) \<Rightarrow> Inl err
      | (None, r1) \<Rightarrow>
          (case parseSizedChunk r1 of
             Inl err \<Rightarrow> Inl err
           | Inr (headerData, r2) \<Rightarrow>
               if length headerData \<ge> 6 then
                 Inr (\<lparr>Format = getUint16 (take 2 headerData),
                       NumberOfTracks = getUint16 (take 2 (drop 2 headerData)),
                       Division = getUint16 (take 2 (drop 4 headerData))\<rparr>, r2)
               else if headerData = [] then Inl EOF
               else Inl UnexpectedEOF))"

text \<open>
  \<open>readSizedChunk\<close> returns a limit reader over the next \<open>length\<close> bytes: the window
  it exposes, and the source after the window.
\<close>

definition readSizedChunk :: "byte list \<Rightarrow> error + (byte list \<times> byte list)" where
  "readSizedChunk r =
     (case binaryReadUint32 r of
        (Inl err, r1) \<Rightarrow> Inl err
      | (Inr len, r1) \<Rightarrow> Inr (take (unat len) r1, drop (unat len) r1))"

text \<open>\<open>onReadBytes\<close> with no callback, as \<open>skipSizedChunk\<close> calls it.\<close>

function onReadBytes :: "byte list \<Rightarrow> nat \<Rightarrow> error option \<times> byte list" where
  "onReadBytes r remaining =
     (if remaining > 0 then
        (let n = (if 4096 > remaining then remaining else 4096) in
         if r = [] then (Some (ReadError EOF), r)
         else onReadBytes (drop n r) (remaining - n))
      else (None, r))"
  by pat_completeness auto
termination
  by (relation "measure (\<lambda>(r, remaining). remaining)") auto

declare onReadBytes.simps [simp del]

definition skipSizedChunk :: "byte list \<Rightarrow> error option \<times> byte list" where
  "skipSizedChunk r =
     (case binaryReadUint32 r of
        (Inl err, r1) \<Rightarrow> (Some err, r1)
      | (Inr len, r1) \<Rightarrow> onReadBytes r1 (unat len))"

text \<open>
  \<open>parseTrack\<close> returns \<open>(nil, false, err)\<close> for a chunk that is not a track,
  \<open>(nil, true, err)\<close> for a track that fails to parse and \<open>(rv, true, nil)\<close> for a
  track; these are the three constructors.
\<close>

datatype parseTrackResult =
    NotMidiTrack error "byte list"
  | MidiTrackError error
  | MidiTrack Track "byte list"

definition parseTrack :: "byte list \<Rightarrow> parseTrackResult" where
  "parseTrack r =
     (case readLiteralExpecting r MTrk of
        (Some err, r1) \<Rightarrow>
          (case skipSizedChunk r1 of
             (Some err2, r2) \<Rightarrow> NotMidiTrack err2 r2
           | (None, r2) \<Rightarrow> NotMidiTrack err r2)
      | (None, r1) \<Rightarrow>
          (case readSizedChunk r1 of
             Inl err \<Rightarrow> MidiTrackError err
           | Inr (trackReader, r2) \<Rightarrow>
               (case parseTrackBody trackReader of
                  Inl err \<Rightarrow> MidiTrackError err
                | Inr rawEvents \<Rightarrow>
                    (case presentEvents rawEvents [] of
                       Inl err \<Rightarrow> MidiTrackError err
                     | Inr evs \<Rightarrow> MidiTrack \<lparr>Events = evs\<rparr> r2))))"

text \<open>
  The loop of \<open>parse\<close> over the tracks the header announces: \<open>i\<close> is the index, the
  second number counts the iterations left.
\<close>

fun parseTracks ::
  "bool \<Rightarrow> nat \<Rightarrow> nat \<Rightarrow> byte list \<Rightarrow> Track list \<Rightarrow> bool \<Rightarrow> error option
     \<Rightarrow> error + (Track list \<times> bool \<times> error option)" where
  "parseTracks strict i 0 r tracks sawMidiTrack sawNonMidiTrack =
     Inr (tracks, sawMidiTrack, sawNonMidiTrack)"
| "parseTracks strict i (Suc k) r tracks sawMidiTrack sawNonMidiTrack =
     (case parseTrack r of
        NotMidiTrack err r' \<Rightarrow>
          if strict then Inl (UnknownChunk err)
          else parseTracks strict (Suc i) k r' tracks sawMidiTrack
                 (if sawNonMidiTrack = None then Some err else sawNonMidiTrack)
      | MidiTrackError err \<Rightarrow> Inl (ErrorParsingTrack i err)
      | MidiTrack trk r' \<Rightarrow>
          parseTracks strict (Suc i) k r' (tracks @ [trk]) True sawNonMidiTrack)"

definition parse :: "byte list \<Rightarrow> bool \<Rightarrow> error + File" where
  "parse r strict =
     (case parseHeader r of
        Inl err \<Rightarrow> Inl (ErrorParsingHeader err)
      | Inr (hdr, r1) \<Rightarrow>
          (case parseTracks strict 0 (unat (NumberOfTracks hdr)) r1 [] False None of
             Inl err \<Rightarrow> Inl err
           | Inr (tracks, sawMidiTrack, sawNonMidiTrack) \<Rightarrow>
               if \<not> sawMidiTrack then Inl (NoMidiTracks sawNonMidiTrack)
               else Inr \<lparr>Header = hdr, Tracks = tracks\<rparr>))"

text \<open>
  \<open>Parse\<close> reads through a context reader, which passes the bytes on unchanged, and
  wraps an error with the position reached; the model keeps the wrapped error only.
\<close>

definition Parse :: "byte list \<Rightarrow> error + File" where
  "Parse r = (case parse r False of Inl err \<Rightarrow> Inl (WithContext err) | Inr f \<Rightarrow> Inr f)"


section \<open>The time base\<close>

definition DefaultTempo :: uint64 where [simp]: "DefaultTempo = 500000"

text \<open>
  \<open>OnEvents\<close> walks a track with two registers: the time in seconds, a \<open>float64\<close>
  that is left out here, and the tempo \<open>microsPerBeat\<close>, which only a Meta event for
  which \<open>GetTempo\<close> reports a tempo changes. \<open>OnEvents_microsPerBeat\<close> is the tempo
  register after the events of the track, for a callback that does not fail.
\<close>

fun OnEvents_microsPerBeat :: "uint64 \<Rightarrow> Event list \<Rightarrow> uint64" where
  "OnEvents_microsPerBeat microsPerBeat [] = microsPerBeat"
| "OnEvents_microsPerBeat microsPerBeat (Meta v # evts) =
     (case GetTempo v of
        (newTempo, ok) \<Rightarrow>
          OnEvents_microsPerBeat (if ok then newTempo else microsPerBeat) evts)"
| "OnEvents_microsPerBeat microsPerBeat (evt # evts) =
     OnEvents_microsPerBeat microsPerBeat evts"

section \<open>Event lists up to their time deltas\<close>

text \<open>
  Following the spec's words for the round trip of a track: an event list "modulo
  merging consecutive TimeDelta into one and dropping TimeDelta(0)". \<open>mergeTimeDeltas\<close>
  gives the list in that normal form; \<open>d\<close> is the sum of the run of TimeDelta events
  just passed. The sum is taken in 64 bits, as \<open>TimeDeltaEvent\<close> is an \<open>int64\<close>.
\<close>

fun mergeTimeDeltas :: "uint64 \<Rightarrow> Event list \<Rightarrow> Event list" where
  "mergeTimeDeltas d [] = (if d = 0 then [] else [TimeDelta d])"
| "mergeTimeDeltas d (TimeDelta t # es) = mergeTimeDeltas (d + t) es"
| "mergeTimeDeltas d (e # es) = (if d = 0 then [] else [TimeDelta d]) @ e # mergeTimeDeltas 0 es"

text \<open>
  The same normal form without the TimeDelta events that follow the last other event:
  the only difference is the first equation.
\<close>

fun mergeTimeDeltasBeforeEvents :: "uint64 \<Rightarrow> Event list \<Rightarrow> Event list" where
  "mergeTimeDeltasBeforeEvents d [] = []"
| "mergeTimeDeltasBeforeEvents d (TimeDelta t # es) = mergeTimeDeltasBeforeEvents (d + t) es"
| "mergeTimeDeltasBeforeEvents d (e # es) =
     (if d = 0 then [] else [TimeDelta d]) @ e # mergeTimeDeltasBeforeEvents 0 es"

text \<open>
  The events that the parser and the presenter produce. A MIDI event is in presented
  form when it is what \<open>presentEvent\<close> makes of its own status byte \<open>RawType\<close> and
  data bytes \<open>RawData\<close>, these being a channel-voice status byte with a payload of the
  length of its kind and of data bytes, and when its kind is the one of the status byte
  (so it is not a NoteOn of velocity 0 turned into a NoteOff). A SysEx event starts with
  its framing byte \<open>0xF0\<close> or \<open>0xF7\<close>. The bounds on the lengths hold for every Go
  slice.
\<close>

definition presentedMIDIEvent :: "MIDIEvent \<Rightarrow> bool" where
  "presentedMIDIEvent e =
     (case RawData e of
        None \<Rightarrow> False
      | Some d \<Rightarrow>
          (case midiEventSpecs (unat (drop_bit 4 (RawType e AND 0xf0))) of
             None \<Rightarrow> False
           | Some spec \<Rightarrow> length d = dataLen spec)
          \<and> list_all (\<lambda>b. b AND 0x80 = 0) d
          \<and> presentEvent \<lparr>kind = midiEvent, typeByte = RawType e, data = d, timeDelta = 0\<rparr>
              = Inr (Midi e)
          \<and> MType e = RawType e AND 0xf0)"

fun presentedEvent :: "Event \<Rightarrow> bool" where
  "presentedEvent (TimeDelta td) = True"
| "presentedEvent (Sysex e) = (e \<noteq> [] \<and> (e ! 0 = 0xF0 \<or> e ! 0 = 0xF7) \<and> length e - 1 < 2 ^ 63)"
| "presentedEvent (Meta e) = (length (Data e) < 2 ^ 63)"
| "presentedEvent (Midi e) = presentedMIDIEvent e"

section \<open>Properties of the variable-length quantities\<close>

lemma mask7_uint64: "(0x7f :: uint64) = mask 7" by (simp add: mask_eq_exp_minus_1)
lemma mask7_byte: "(0x7f :: byte) = mask 7" by (simp add: mask_eq_exp_minus_1)
lemma bit_0x80: "bit (0x80 :: 'a::len word) n = (n = 7 \<and> 7 < LENGTH('a))"
proof -
  have e: "(0x80::'a word) = 2 ^ 7" by simp
  have "bit ((2::'a word) ^ 7) n = (n = 7 \<and> 7 < LENGTH('a))"
    by (simp only: bit_exp_iff possible_bit_word) auto
  then show ?thesis by (simp only: e)
qed

lemma septet_of_byte: "(ucast ((ucast (m AND 0x7f :: uint64) :: byte) AND 0x7f) :: uint64) = m AND 0x7f"
  unfolding mask7_uint64 mask7_byte
  by (rule bit_eqI) (auto simp add: bit_simps) 

lemma flagged_low_bits: "((x::byte) OR 0x80) AND 0x7f = x AND 0x7f"
  by (simp add: bit.conj_disj_distrib2)

lemma septet_of_flagged: "(ucast (((ucast (m AND 0x7f :: uint64) :: byte) OR 0x80) AND 0x7f) :: uint64) = m AND 0x7f"
  by (simp only: flagged_low_bits septet_of_byte)

lemma low_bits_no_flag: "((x::byte) AND 0x7f) AND 0x80 = 0"
  by (simp add: and.assoc)

lemma septet_high_bit_clear: "(ucast (m AND 0x7f :: uint64) :: byte) AND 0x80 = 0"
proof -
  have "(ucast (m AND 0x7f :: uint64) :: byte) = ucast m AND 0x7f"
    by (simp add: unsigned_and_eq)
  then show ?thesis by (simp only: low_bits_no_flag)
qed

lemma flagged_high_bit_set: "((b :: byte) OR 0x80) AND 0x80 \<noteq> 0"
proof -
  have "bit ((b OR 0x80) AND 0x80) 7" by (simp add: bit_simps bit_0x80)
  then show ?thesis by auto
qed

lemma shift_septet_ident: "push_bit 7 (drop_bit 7 m) OR (m AND 0x7f) = (m :: uint64)"
  unfolding mask7_uint64
  by (rule bit_eqI) (auto simp add: bit_simps) 

lemma unat_drop_bit7_less: "0 < (n::uint64) \<Longrightarrow> unat (drop_bit 7 n) < unat n"
proof -
  assume "0 < n"
  then have "0 < unat n" by (simp add: word_less_nat_alt)
  then have "unat n div 2 ^ 7 < unat n" by simp
  then show ?thesis by (simp add: drop_bit_eq_div unat_div)
qed

lemma encodeVarintSeptets_append: "encodeVarintSeptets n rrv = rrv @ encodeVarintSeptets n []"
proof (induction "unat n" arbitrary: n rrv rule: less_induct)
  case less
  show ?case
  proof (cases "n > 0")
    case True
    let ?b = "ucast (n AND 0x7f) :: byte"
    have "encodeVarintSeptets n rrv = encodeVarintSeptets (drop_bit 7 n) (rrv @ [?b])"
      using True by (subst encodeVarintSeptets.simps) simp
    also have "\<dots> = (rrv @ [?b]) @ encodeVarintSeptets (drop_bit 7 n) []"
      using less[OF unat_drop_bit7_less[OF True]] .
    also have "\<dots> = rrv @ encodeVarintSeptets (drop_bit 7 n) ([] @ [?b])"
      using less[OF unat_drop_bit7_less[OF True], of "[?b]"] by simp
    also have "\<dots> = rrv @ encodeVarintSeptets n []"
      using True by (subst (2) encodeVarintSeptets.simps) simp
    finally show ?thesis .
  next
    case False
    then show ?thesis by (subst (1 2) encodeVarintSeptets.simps) simp
  qed
qed

lemma encodeVarintSeptets_unfold:
  "encodeVarintSeptets n [] =
     (if n > 0 then ucast (n AND 0x7f) # encodeVarintSeptets (drop_bit 7 n) [] else [])"
proof (cases "n > 0")
  case True
  have "encodeVarintSeptets n [] = encodeVarintSeptets (drop_bit 7 n) [ucast (n AND 0x7f)]"
    using True by (subst encodeVarintSeptets.simps) simp
  then show ?thesis using True encodeVarintSeptets_append[of "drop_bit 7 n" "[ucast (n AND 0x7f)]"] by simp
next
  case False
  then show ?thesis by (subst encodeVarintSeptets.simps) simp
qed

lemma encodeVarintSeptets_exhaust: "drop_bit (7 * length (encodeVarintSeptets n [])) n = 0"
proof (induction "unat n" arbitrary: n rule: less_induct)
  case less
  show ?case
  proof (cases "n > 0")
    case True
    have "drop_bit (7 * length (encodeVarintSeptets (drop_bit 7 n) [])) (drop_bit 7 n) = 0"
      using less[OF unat_drop_bit7_less[OF True]] .
    then show ?thesis using True
      by (subst encodeVarintSeptets_unfold) (simp add: add.commute)
  next
    case False
    then have "n = 0" by (simp add: word_gt_0)
    then show ?thesis by simp
  qed
qed

lemma encodeVarintSeptets_nth:
  "i < length (encodeVarintSeptets n []) \<Longrightarrow>
   encodeVarintSeptets n [] ! i = ucast (drop_bit (7 * i) n AND 0x7f)"
proof (induction i arbitrary: n)
  case 0
  then have "n > 0" by (subst (asm) encodeVarintSeptets_unfold) (auto split: if_splits)
  then show ?case by (subst encodeVarintSeptets_unfold) simp
next
  case (Suc i)
  have pos: "n > 0" using Suc.prems by (subst (asm) encodeVarintSeptets_unfold) (auto split: if_splits)
  have "i < length (encodeVarintSeptets (drop_bit 7 n) [])"
    using Suc.prems pos by (subst (asm) encodeVarintSeptets_unfold) simp
  from Suc.IH[OF this] show ?case using pos
    by (subst encodeVarintSeptets_unfold) (simp add: add.commute)
qed


lemma encodeVarintEmit_append: "encodeVarintEmit rrv k rv = rv @ encodeVarintEmit rrv k []"
proof (induction k arbitrary: rv)
  case 0
  show ?case by simp
next
  case (Suc k)
  let ?b = "if k \<noteq> 0 then (rrv ! k) OR 0x80 else rrv ! k"
  have "encodeVarintEmit rrv (Suc k) rv = encodeVarintEmit rrv k (rv @ [?b])" by simp
  also have "\<dots> = (rv @ [?b]) @ encodeVarintEmit rrv k []" by (rule Suc.IH)
  also have "\<dots> = rv @ encodeVarintEmit rrv k ([] @ [?b])"
    using Suc.IH[of "[?b]"] by simp
  finally show ?case by simp
qed

lemma encodeVarintEmit_Suc:
  "encodeVarintEmit rrv (Suc k) [] =
     (if k \<noteq> 0 then (rrv ! k) OR 0x80 else rrv ! k) # encodeVarintEmit rrv k []"
  using encodeVarintEmit_append[of rrv k "[if k \<noteq> 0 then (rrv ! k) OR 0x80 else rrv ! k]"] by simp

lemma readVarintLoop_emit:
  "0 < k \<Longrightarrow> k \<le> length (encodeVarintSeptets n []) \<Longrightarrow>
   readVarintLoop (push_bit 7 (drop_bit (7 * k) n))
     (encodeVarintEmit (encodeVarintSeptets n []) k [] @ rest) = Inr (n, rest)"
proof (induction k)
  case 0
  then show ?case by simp
next
  case (Suc k)
  let ?S = "encodeVarintSeptets n []"
  let ?m = "drop_bit (7 * k) n"
  have nth: "?S ! k = ucast (?m AND 0x7f)"
    using Suc.prems by (simp add: encodeVarintSeptets_nth)
  have shift: "drop_bit (7 * Suc k) n = drop_bit 7 ?m"
    by (simp add: add.commute)
  show ?case
  proof (cases "k = 0")
    case True
    have nth0: "?S ! 0 = ucast (n AND 0x7f)"
      using nth True by simp
    show ?thesis unfolding True
      by (simp add: encodeVarintEmit_Suc nth0 septet_of_byte septet_high_bit_clear shift_septet_ident Let_def del: encodeVarintEmit.simps(2))
  next
    case False
    let ?b = "(?S ! k) OR 0x80"
    have ih: "readVarintLoop (push_bit 7 ?m) (encodeVarintEmit ?S k [] @ rest) = Inr (n, rest)"
      using Suc False by simp
    have acc: "push_bit 7 (drop_bit 7 ?m) OR ucast (?b AND 0x7f) = ?m"
      by (simp only: nth septet_of_flagged shift_septet_ident)
    have "readVarintLoop (push_bit 7 (drop_bit (7 * Suc k) n))
            (encodeVarintEmit ?S (Suc k) [] @ rest)
        = readVarintLoop (push_bit 7 (drop_bit 7 ?m)) (?b # (encodeVarintEmit ?S k [] @ rest))"
      using False by (simp only: encodeVarintEmit_Suc shift) simp
    also have "\<dots> = readVarintLoop (push_bit 7 ?m) (encodeVarintEmit ?S k [] @ rest)"
      by (simp only: readVarintLoop.simps Let_def flagged_high_bit_set acc if_False)
    finally show ?thesis using ih by simp
  qed
qed

lemma readVarint_encodeVarint_append:
  "readVarint (encodeVarint u @ rest) = Inr (u, rest)"
proof (cases "u = 0")
  case True
  then show ?thesis by (simp add: readVarint_def encodeVarint_def)
next
  case False
  let ?S = "encodeVarintSeptets u []"
  have pos: "0 < length ?S"
    using False by (subst encodeVarintSeptets_unfold) (simp add: word_gt_0)
  have "readVarintLoop (push_bit 7 (drop_bit (7 * length ?S) u))
     (encodeVarintEmit ?S (length ?S) [] @ rest) = Inr (u, rest)"
    using pos by (intro readVarintLoop_emit) simp_all
  then show ?thesis using False
    by (simp add: readVarint_def encodeVarint_def encodeVarintSeptets_exhaust Let_def)
qed

text \<open>
  C6. Decoding the bytes that \<open>encodeVarint\<close> produces for \<open>u\<close> gives \<open>u\<close> again and
  leaves nothing unread. This holds for every 64-bit \<open>u\<close>, so for every \<open>u\<close> below
  \<open>2 ^ 32\<close>.
\<close>

theorem vlq_roundtrip: "readVarint (encodeVarint u) = Inr (u, [])"
  using readVarint_encodeVarint_append [of u "[]"] by simp






text \<open>
  The test \<open>rv != 0\<close> of \<open>readVarint\<close> stands for "a byte has been read". After the
  single continuation byte \<open>0x80\<close> the accumulator is still 0, and the end of the source
  is reported as the plain \<open>io.EOF\<close>, which \<open>parseTrackBody\<close> takes for the end of the
  track; after \<open>0x81\<close> it is reported as "EOF in the middle of varint".
  \<open>readSingleEvent\<close> keeps the flag \<open>beganReading\<close> for this and reports every
  truncated event.
\<close>

lemma readVarint_dangling_continuation:
  "readVarint [0x80] = Inl EOF
   \<and> parseTrackBody [0x00, 0xFF, 0x2F, 0x00, 0x80]
       = Inr [\<lparr>kind = metaEvent, typeByte = 0x2F, data = [], timeDelta = 0\<rparr>]
   \<and> parseTrackBody [0x00, 0xFF, 0x2F, 0x00, 0x81]
       = Inl (ErrorReadingTimeDelta TruncatedVarint)"
  by (simp add: parseTrackBody_def parseTrackBodyLoop.simps readVarint_def readSingleEvent_def
      feedByte_def feedByteInternal_def newEventDataParser_def Let_def)


section \<open>Properties of the parser and the presenter\<close>

text \<open>
  C1. \<open>GetTempo\<close> on the tempo event \<open>FF 51 03 05 E3 8B\<close> reports no tempo, and on an
  event of another type with three data bytes it reports one. So the walk of a track
  keeps the default tempo after the tempo event, and takes a tempo from the other event.
\<close>

theorem GetTempo_rejects_SetTempo:
  "GetTempo \<lparr>Type = SetTempo, Data = [0x05, 0xE3, 0x8B]\<rparr> = (0, False)
   \<and> GetTempo \<lparr>Type = 0x7F, Data = [0x05, 0xE3, 0x8B]\<rparr> = (0x05E38B, True)
   \<and> OnEvents_microsPerBeat DefaultTempo [Meta \<lparr>Type = SetTempo, Data = [0x05, 0xE3, 0x8B]\<rparr>]
       = 500000
   \<and> OnEvents_microsPerBeat DefaultTempo [Meta \<lparr>Type = 0x7F, Data = [0x05, 0xE3, 0x8B]\<rparr>]
       = 0x05E38B"
  by (simp add: GetTempo_def)

text \<open>
  C4. In \<open>wantMetaLength\<close> with \<open>metaLength = 0\<close> the byte \<open>0x80\<close>, whose high bit is
  set, emits a Meta event with empty data, signals the end of the event and returns to
  \<open>wantEvent\<close>; \<open>wantSysexLength\<close> does the same with a SysEx event. So the track body
  \<open>00 FF 01 80 01 41\<close>, a text event whose length 1 is written in two bytes, is
  rejected: the parser takes \<open>01\<close> for the next delta and \<open>41\<close> for a data byte without
  a running status.
\<close>

theorem length_continuation_zero_emits:
  "feedByteInternal (newEventDataParser\<lparr>state := wantMetaLength, metaEventType := 0x01\<rparr>) 0x80
     = Inr (True,
         newEventDataParser
           \<lparr>metaEventType := 0x01,
            events := [\<lparr>kind = metaEvent, typeByte = 0x01, data = [], timeDelta = 0\<rparr>]\<rparr>)
   \<and> feedByteInternal
       (newEventDataParser\<lparr>state := wantSysexLength, currentSysexType := 0xF0\<rparr>) 0x80
     = Inr (True,
         newEventDataParser
           \<lparr>events := [\<lparr>kind = sysexEvent, typeByte = 0xF0, data = [], timeDelta = 0\<rparr>]\<rparr>)
   \<and> parseTrackBody [0x00, 0xFF, 0x01, 0x80, 0x01, 0x41]
     = Inl (ErrorParsingEvent (AfterConsuming 3 (UnknownRunningStatus 0)))"
proof (intro conjI)
  show "feedByteInternal
      (newEventDataParser\<lparr>state := wantMetaLength, metaEventType := 0x01\<rparr>) 0x80
     = Inr (True,
         newEventDataParser
           \<lparr>metaEventType := 0x01,
            events := [\<lparr>kind = metaEvent, typeByte = 0x01, data = [], timeDelta = 0\<rparr>]\<rparr>)"
    by (simp add: feedByteInternal_def newEventDataParser_def Let_def)
  show "feedByteInternal
       (newEventDataParser\<lparr>state := wantSysexLength, currentSysexType := 0xF0\<rparr>) 0x80
     = Inr (True,
         newEventDataParser
           \<lparr>events := [\<lparr>kind = sysexEvent, typeByte = 0xF0, data = [], timeDelta = 0\<rparr>]\<rparr>)"
    by (simp add: feedByteInternal_def newEventDataParser_def flushSysexEvent_def Let_def)
  show "parseTrackBody [0x00, 0xFF, 0x01, 0x80, 0x01, 0x41]
     = Inl (ErrorParsingEvent (AfterConsuming 3 (UnknownRunningStatus 0)))"
    by (simp add: parseTrackBody_def parseTrackBodyLoop.simps readVarint_def readSingleEvent_def
        feedByte_def feedByteInternal_def newEventDataParser_def Let_def addTimeDelta_def
        feedMIDIDataByte_def midiEventSpecs_def)
qed

lemma mask4_byte: "(0x0f :: byte) = mask 4"
  by (simp add: mask_eq_exp_minus_1)

lemma nibble_low: "(ucast (c :: 4 word) :: byte) AND 0x0f = ucast c"
  unfolding mask4_byte
  by (rule bit_eqI) (auto simp add: bit_simps dest: bit_imp_le_length)

lemma nibble_high: "0xf0 AND (ucast (c :: 4 word) :: byte) = 0"
proof -
  have "0xf0 AND (ucast c :: byte) = 0xf0 AND (ucast c AND 0x0f)"
    by (simp only: nibble_low)
  also have "\<dots> = 0"
    by (simp add: and.left_commute)
  finally show ?thesis .
qed

text \<open>
  C7. For every channel nibble \<open>c\<close> and key byte \<open>k\<close>, the raw MIDI event with status
  byte \<open>0x90 OR c\<close> and data \<open>[k, 0x00]\<close> is presented as a NoteOff on channel \<open>c\<close> with
  key \<open>k\<close> and velocity \<open>0x40\<close>.
\<close>

theorem noteOn_zero_presents_as_noteOff:
  "presentEvent \<lparr>kind = midiEvent, typeByte = 0x90 OR ucast (c :: 4 word),
                  data = [k, 0x00], timeDelta = td\<rparr>
     = Inr (Midi \<lparr>MType = NoteOff, RawType = 0x90 OR ucast c, Channel = uint c,
                   Key = uint k, Velocity = 0x40, ControllerNumber = 0,
                   ControllerValue = 0, ProgramNumber = 0, RawData = Some [k, 0x00]\<rparr>)"
proof -
  have t: "0xf0 AND (0x90 OR ucast c :: byte) = 0x90"
    by (simp add: bit.conj_disj_distrib nibble_high)
  have "0x0f AND (0x90 OR ucast c :: byte) = ucast c"
    using nibble_low [of c] by (simp add: bit.conj_disj_distrib and.commute)
  then have ch: "uint (0x0f AND (0x90 OR ucast c :: byte)) = uint c"
    by (simp add: uint_up_ucast is_up)
  show ?thesis
    by (simp add: presentEvent_def t ch expectLen_def rawAt_def Let_def)
qed

lemma high_nibble_shift: "push_bit 4 (drop_bit 4 (s AND 0xf0)) = s AND (0xf0 :: byte)"
proof -
  have e: "(0xf0 :: byte) = NOT (mask 4)"
    by (simp add: mask_eq_exp_minus_1)
  show ?thesis
    unfolding e by (rule bit_eqI) (auto simp add: bit_simps)
qed

lemma high_nibble_value:
  "unat (drop_bit 4 (s AND 0xf0 :: byte)) = n \<Longrightarrow> s AND 0xf0 = push_bit 4 (of_nat n)"
proof -
  assume "unat (drop_bit 4 (s AND 0xf0)) = n"
  then have "drop_bit 4 (s AND 0xf0) = of_nat n"
    by (metis of_nat_unat ucast_id)
  then have "push_bit 4 (drop_bit 4 (s AND 0xf0)) = push_bit 4 (of_nat n)"
    by (simp only:)
  then show ?thesis
    by (simp only: high_nibble_shift)
qed

lemma status_cases:
  assumes "midiEventSpecs (unat (drop_bit 4 (s AND 0xf0 :: byte))) = Some spec"
  shows "(s AND 0xf0 = 0x80 \<and> dataLen spec = 2) \<or> (s AND 0xf0 = 0x90 \<and> dataLen spec = 2)
       \<or> (s AND 0xf0 = 0xA0 \<and> dataLen spec = 2) \<or> (s AND 0xf0 = 0xB0 \<and> dataLen spec = 2)
       \<or> (s AND 0xf0 = 0xC0 \<and> dataLen spec = 1) \<or> (s AND 0xf0 = 0xD0 \<and> dataLen spec = 1)
       \<or> (s AND 0xf0 = 0xE0 \<and> dataLen spec = 2)"
proof -
  let ?n = "unat (drop_bit 4 (s AND 0xf0))"
  from assms consider
      "?n = 8" "dataLen spec = 2" | "?n = 9" "dataLen spec = 2"
    | "?n = 10" "dataLen spec = 2" | "?n = 11" "dataLen spec = 2"
    | "?n = 12" "dataLen spec = 1" | "?n = 13" "dataLen spec = 1"
    | "?n = 14" "dataLen spec = 2"
    by (auto simp only: midiEventSpecs_def map_of.simps fun_upd_apply fst_conv snd_conv
        midiEventSpec.simps option.inject split: if_splits)
  then show ?thesis
  proof cases
    case 1
    from high_nibble_value [OF 1(1)] 1(2) show ?thesis by simp
  next
    case 2
    from high_nibble_value [OF 2(1)] 2(2) show ?thesis by simp
  next
    case 3
    from high_nibble_value [OF 3(1)] 3(2) show ?thesis by simp
  next
    case 4
    from high_nibble_value [OF 4(1)] 4(2) show ?thesis by simp
  next
    case 5
    from high_nibble_value [OF 5(1)] 5(2) show ?thesis by simp
  next
    case 6
    from high_nibble_value [OF 6(1)] 6(2) show ?thesis by simp
  next
    case 7
    from high_nibble_value [OF 7(1)] 7(2) show ?thesis by simp
  qed
qed

lemma and80_via_f0: "(s :: byte) AND 0x80 = (s AND 0xf0) AND 0x80"
  by (simp add: and.assoc)

lemma status_high_bit:
  assumes "midiEventSpecs (unat (drop_bit 4 (s AND 0xf0 :: byte))) = Some spec"
  shows "s AND 0x80 \<noteq> 0"
  using status_cases [OF assms] by (subst and80_via_f0) auto

lemma status_not_special:
  assumes "midiEventSpecs (unat (drop_bit 4 (s AND 0xf0 :: byte))) = Some spec"
  shows "s \<noteq> 0xFF \<and> s \<noteq> 0xF0 \<and> s \<noteq> 0xF7"
  using status_cases [OF assms] by auto

lemma data_byte_not_special:
  "(b :: byte) AND 0x80 = 0 \<Longrightarrow> b \<noteq> 0xFF \<and> b \<noteq> 0xF0 \<and> b \<noteq> 0xF7"
  by auto


lemma feedByte_status:
  assumes "state p = wantEvent" "eventData p = []"
    and "midiEventSpecs (unat (drop_bit 4 (s AND 0xf0 :: byte))) = Some spec"
  shows "feedByte p s = Inr (False, p\<lparr>runningStatus := s, bytesFed := bytesFed p + 1\<rparr>)"
  using assms status_not_special [OF assms(3)] status_high_bit [OF assms(3)]
  by (simp add: feedByte_def feedByteInternal_def)

lemma feedByte_data:
  assumes "state p = wantEvent" "b AND 0x80 = 0"
  shows "feedByte p b =
     (case feedMIDIDataByte p b of
        Inl err \<Rightarrow> Inl (AfterConsuming (bytesFed p) err)
      | Inr (stopPoint, p') \<Rightarrow> Inr (stopPoint, p'\<lparr>bytesFed := bytesFed p' + 1\<rparr>))"
  using assms data_byte_not_special [OF assms(2)]
  by (simp add: feedByte_def feedByteInternal_def)

lemma readSingleEventLoop_payload:
  assumes "state p = wantEvent" "eventData p = []"
    and "midiEventSpecs (unat (drop_bit 4 (runningStatus p AND 0xf0))) = Some spec"
    and "length d = dataLen spec" "\<forall>b\<in>set d. b AND 0x80 = 0"
  shows "\<exists>p'. readSingleEventLoop p began (d @ r) = Inr (p', r)
           \<and> state p' = wantEvent \<and> eventData p' = [] \<and> runningStatus p' = runningStatus p
           \<and> events p' = events p @
                [\<lparr>kind = midiEvent, typeByte = runningStatus p, data = d, timeDelta = 0\<rparr>]"
proof -
  from status_cases [OF assms(3)] have "dataLen spec = 1 \<or> dataLen spec = 2" by auto
  then show ?thesis
  proof
    assume one: "dataLen spec = 1"
    with assms(4) obtain b where d: "d = [b]"
      by (cases d) auto
    with assms(5) have b: "b AND 0x80 = 0" by simp
    show ?thesis
      using assms(1-3) one
      by (simp add: d feedByte_data [OF assms(1) b] feedMIDIDataByte_def Let_def)
  next
    assume two: "dataLen spec = 2"
    with assms(4) obtain b1 b2 where d: "d = [b1, b2]"
      by (cases d; cases "tl d") auto
    with assms(5) have b1: "b1 AND 0x80 = 0" and b2: "b2 AND 0x80 = 0" by simp_all
    let ?p1 = "p\<lparr>eventData := [b1], bytesFed := bytesFed p + 1\<rparr>"
    have f1: "feedByte p b1 = Inr (False, ?p1)"
      using assms(1-3) two
      by (simp add: feedByte_data [OF assms(1) b1] feedMIDIDataByte_def Let_def)
    have st: "state ?p1 = wantEvent" using assms(1) by simp
    show ?thesis
      using assms(1-3) two
      by (simp add: d f1 feedByte_data [OF st b2] feedMIDIDataByte_def Let_def)
  qed
qed

lemma readSingleEventLoop_status_payload:
  assumes "state p = wantEvent" "eventData p = []"
    and "midiEventSpecs (unat (drop_bit 4 (s AND 0xf0 :: byte))) = Some spec"
    and "length d = dataLen spec" "\<forall>b\<in>set d. b AND 0x80 = 0"
  shows "\<exists>p'. readSingleEventLoop p began (s # d @ r) = Inr (p', r)
           \<and> state p' = wantEvent \<and> eventData p' = [] \<and> runningStatus p' = s
           \<and> events p' = events p @
                [\<lparr>kind = midiEvent, typeByte = s, data = d, timeDelta = 0\<rparr>]"
proof -
  let ?p0 = "p\<lparr>runningStatus := s, bytesFed := bytesFed p + 1\<rparr>"
  have "\<exists>p'. readSingleEventLoop ?p0 True (d @ r) = Inr (p', r)
           \<and> state p' = wantEvent \<and> eventData p' = [] \<and> runningStatus p' = runningStatus ?p0
           \<and> events p' = events ?p0 @
                [\<lparr>kind = midiEvent, typeByte = runningStatus ?p0, data = d, timeDelta = 0\<rparr>]"
    using assms by (intro readSingleEventLoop_payload [where spec = spec]) simp_all
  then show ?thesis
    by (simp add: feedByte_status [OF assms(1-3)])
qed

lemma presentEvent_midi:
  assumes "midiEventSpecs (unat (drop_bit 4 (s AND 0xf0 :: byte))) = Some spec"
    and "length d = dataLen spec"
  shows "\<exists>a. presentEvent \<lparr>kind = midiEvent, typeByte = s, data = d, timeDelta = t\<rparr> = Inr (Midi a)
           \<and> RawType a = s \<and> Channel a = uint (0x0f AND s) \<and> RawData a = Some d
           \<and> MType a = (if s AND 0xf0 = NoteOn \<and> d ! 1 = 0 then NoteOff else s AND 0xf0)"
proof -
  have c: "0xf0 AND s = s AND 0xf0" by (simp add: and.commute)
  from status_cases [OF assms(1)] assms(2) show ?thesis
    by (elim disjE conjE)
      (auto simp add: presentEvent_def Let_def expectLen_def rawAt_def c uint_0_iff)
qed


text \<open>
  C8, as the code has it. The parser is between two events (\<open>wantEvent\<close>, no partial
  payload). It reads a channel-voice status byte \<open>s\<close> with its payload \<open>pa\<close>, the track
  loop records the next delta \<open>td\<close> when it is not zero, and the parser reads a payload
  \<open>pb\<close> that has no status byte. Both raw events carry the status byte \<open>s\<close>, so the
  presented events have the same channel; they have the same kind unless \<open>s\<close> is a NoteOn
  and exactly one of the two velocities is 0, the event that the presenter turns into a
  NoteOff.
\<close>

theorem running_status_stability:
  assumes "state p = wantEvent" and "eventData p = []"
    and "midiEventSpecs (unat (drop_bit 4 (s AND 0xf0 :: byte))) = Some spec"
    and "length pa = dataLen spec" and "length pb = dataLen spec"
    and "\<forall>x\<in>set (pa @ pb). x AND 0x80 = 0"
  shows "\<exists>p1 p2 a b.
      readSingleEvent p (s # pa @ r1) = Inr (p1, r1)
    \<and> readSingleEvent (if 0 < td then addTimeDelta p1 td else p1) (pb @ r2) = Inr (p2, r2)
    \<and> last (events p1) = \<lparr>kind = midiEvent, typeByte = s, data = pa, timeDelta = 0\<rparr>
    \<and> last (events p2) = \<lparr>kind = midiEvent, typeByte = s, data = pb, timeDelta = 0\<rparr>
    \<and> presentEvent (last (events p1)) = Inr (Midi a)
    \<and> presentEvent (last (events p2)) = Inr (Midi b)
    \<and> Channel b = Channel a
    \<and> (MType b = MType a) = (s AND 0xf0 = NoteOn \<longrightarrow> (pa ! 1 = 0) = (pb ! 1 = 0))"
proof -
  from assms(6) have da: "\<forall>x\<in>set pa. x AND 0x80 = 0" and db: "\<forall>x\<in>set pb. x AND 0x80 = 0"
    by simp_all
  from readSingleEventLoop_status_payload [OF assms(1-4) da, of False r1]
  obtain p1 where p1: "readSingleEvent p (s # pa @ r1) = Inr (p1, r1)"
    and s1: "state p1 = wantEvent" "eventData p1 = []" "runningStatus p1 = s"
    and e1: "events p1 = events p @ [\<lparr>kind = midiEvent, typeByte = s, data = pa, timeDelta = 0\<rparr>]"
    by (auto simp: readSingleEvent_def)
  let ?q = "if 0 < td then addTimeDelta p1 td else p1"
  have q: "state ?q = wantEvent" "eventData ?q = []"
    "midiEventSpecs (unat (drop_bit 4 (runningStatus ?q AND 0xf0))) = Some spec"
    using s1 assms(3) by (simp_all add: addTimeDelta_def)
  from readSingleEventLoop_payload [OF q assms(5) db, of False r2]
  obtain p2 where p2: "readSingleEvent ?q (pb @ r2) = Inr (p2, r2)"
    and e2: "events p2 = events ?q @
        [\<lparr>kind = midiEvent, typeByte = runningStatus ?q, data = pb, timeDelta = 0\<rparr>]"
    by (auto simp: readSingleEvent_def)
  have rs: "runningStatus ?q = s"
    using s1 by (simp add: addTimeDelta_def)
  from presentEvent_midi [OF assms(3,4), of 0] obtain a where
    a: "presentEvent \<lparr>kind = midiEvent, typeByte = s, data = pa, timeDelta = 0\<rparr> = Inr (Midi a)"
      "Channel a = uint (0x0f AND s)"
      "MType a = (if s AND 0xf0 = NoteOn \<and> pa ! 1 = 0 then NoteOff else s AND 0xf0)"
    by blast
  from presentEvent_midi [OF assms(3,5), of 0] obtain b where
    b: "presentEvent \<lparr>kind = midiEvent, typeByte = s, data = pb, timeDelta = 0\<rparr> = Inr (Midi b)"
      "Channel b = uint (0x0f AND s)"
      "MType b = (if s AND 0xf0 = NoteOn \<and> pb ! 1 = 0 then NoteOff else s AND 0xf0)"
    by blast
  have l1: "last (events p1) = \<lparr>kind = midiEvent, typeByte = s, data = pa, timeDelta = 0\<rparr>"
    by (simp add: e1)
  have l2: "last (events p2) = \<lparr>kind = midiEvent, typeByte = s, data = pb, timeDelta = 0\<rparr>"
    by (simp only: e2 rs last_snoc)
  have k: "(MType b = MType a) = (s AND 0xf0 = NoteOn \<longrightarrow> (pa ! 1 = 0) = (pb ! 1 = 0))"
    using a(3) b(3) by auto
  show ?thesis
    using p1 p2 l1 l2 a(1,2) b(1,2) k
    by (intro exI [of _ p1] exI [of _ p2] exI [of _ a] exI [of _ b]) (simp only: simp_thms)
qed

text \<open>
  The theorem at \<open>93 3C 7F\<close>, a delta of 10 ticks and \<open>3E 40\<close>.
\<close>

theorem running_status_stability_witness:
  "\<exists>p1 p2 a b.
      readSingleEvent newEventDataParser (0x93 # [0x3C, 0x7F] @ []) = Inr (p1, [])
    \<and> readSingleEvent (if 0 < (10 :: uint64) then addTimeDelta p1 10 else p1) ([0x3E, 0x40] @ [])
        = Inr (p2, [])
    \<and> last (events p1) = \<lparr>kind = midiEvent, typeByte = 0x93, data = [0x3C, 0x7F], timeDelta = 0\<rparr>
    \<and> last (events p2) = \<lparr>kind = midiEvent, typeByte = 0x93, data = [0x3E, 0x40], timeDelta = 0\<rparr>
    \<and> presentEvent (last (events p1)) = Inr (Midi a)
    \<and> presentEvent (last (events p2)) = Inr (Midi b)
    \<and> Channel b = Channel a
    \<and> MType b = MType a"
proof -
  have h: "state newEventDataParser = wantEvent" "eventData newEventDataParser = []"
    "midiEventSpecs (unat (drop_bit 4 (0x93 AND 0xf0 :: byte)))
       = Some \<lparr>name = ''NoteOn'', dataLen = 2\<rparr>"
    "length [0x3C, 0x7F :: byte] = dataLen \<lparr>name = ''NoteOn'', dataLen = 2\<rparr>"
    "length [0x3E, 0x40 :: byte] = dataLen \<lparr>name = ''NoteOn'', dataLen = 2\<rparr>"
    "\<forall>x\<in>set ([0x3C, 0x7F] @ [0x3E, 0x40 :: byte]). x AND 0x80 = 0"
    by (simp_all add: newEventDataParser_def midiEventSpecs_def drop_bit_eq_div)
  from running_status_stability [OF h, of "[]" 10 "[]"] show ?thesis
    by simp
qed

text \<open>
  C8 as stated fails: in the track body \<open>00 90 3C 7F 00 3C 00\<close> the second event uses
  the running status of the first, and it is presented as a NoteOff while the first is a
  NoteOn.
\<close>

theorem running_status_kind_counterexample:
  "parseTrackBody [0x00, 0x90, 0x3C, 0x7F, 0x00, 0x3C, 0x00]
     = Inr [\<lparr>kind = midiEvent, typeByte = 0x90, data = [0x3C, 0x7F], timeDelta = 0\<rparr>,
            \<lparr>kind = midiEvent, typeByte = 0x90, data = [0x3C, 0x00], timeDelta = 0\<rparr>]
   \<and> presentEvents
        [\<lparr>kind = midiEvent, typeByte = 0x90, data = [0x3C, 0x7F], timeDelta = 0\<rparr>,
         \<lparr>kind = midiEvent, typeByte = 0x90, data = [0x3C, 0x00], timeDelta = 0\<rparr>] []
     = Inr [Midi \<lparr>MType = NoteOn, RawType = 0x90, Channel = 0, Key = 0x3C, Velocity = 0x7F,
                  ControllerNumber = 0, ControllerValue = 0, ProgramNumber = 0,
                  RawData = Some [0x3C, 0x7F]\<rparr>,
            Midi \<lparr>MType = NoteOff, RawType = 0x90, Channel = 0, Key = 0x3C, Velocity = 0x40,
                  ControllerNumber = 0, ControllerValue = 0, ProgramNumber = 0,
                  RawData = Some [0x3C, 0x00]\<rparr>]"
  by (simp add: parseTrackBody_def parseTrackBodyLoop.simps readVarint_def readSingleEvent_def
      feedByte_def feedByteInternal_def newEventDataParser_def Let_def
      feedMIDIDataByte_def midiEventSpecs_def drop_bit_eq_div
      presentEvent_def expectLen_def rawAt_def)

section \<open>Properties of the encoder\<close>

lemma getUint16_putUint16: "getUint16 (putUint16 v) = v"
  unfolding getUint16_def putUint16_def
  by (rule bit_eqI) (auto simp add: bit_simps)

lemma File_encodeTracks_prefix:
  "File_encodeTracks buf i trks = Inr bs \<Longrightarrow> take (length buf) bs = buf"
proof (induction trks arbitrary: buf i)
  case Nil
  then show ?case by simp
next
  case (Cons trk trks)
  from Cons.prems obtain d where d: "Track_encode trk = Inr d"
    and rest: "File_encodeTracks (buf @ d) (Suc i) trks = Inr bs"
    by (auto split: sum.splits)
  from Cons.IH [OF rest] have "take (length buf + length d) bs = buf @ d" by simp
  then have "take (length buf) (take (length buf + length d) bs) = take (length buf) (buf @ d)"
    by simp
  then show ?case by (simp add: min_def)
qed

text \<open>
  C5, as the code has it. The track count that \<open>File.encode\<close> writes at offset 10 of
  the output is the field \<open>NumberOfTracks\<close> of the header it was given.
\<close>

theorem File_encode_track_count_is_header_field:
  assumes "File_encode f = Inr bs"
  shows "getUint16 (take 2 (drop 10 bs)) = NumberOfTracks (Header f)"
proof -
  let ?h = "MThd @ putUint32 6 @ putUint16 (Format (Header f))
              @ putUint16 (NumberOfTracks (Header f)) @ putUint16 (Division (Header f))"
  have len: "length ?h = 14"
    by (simp add: MThd_def putUint32_def putUint16_def)
  from assms have "File_encodeTracks ?h 0 (Tracks f) = Inr bs"
    by (simp add: File_encode_def Header_encode_def)
  from File_encodeTracks_prefix [OF this] have "take 14 bs = ?h"
    by (simp only: len)
  then have "take 2 (drop 10 (take 14 bs)) = take 2 (drop 10 ?h)"
    by simp
  moreover have "take 2 (drop 10 (take 14 bs)) = take 2 (drop 10 bs)"
    by (simp add: drop_take)
  moreover have "take 2 (drop 10 ?h) = putUint16 (NumberOfTracks (Header f))"
    by (simp add: MThd_def putUint32_def putUint16_def)
  ultimately show ?thesis by (simp add: getUint16_putUint16)
qed

text \<open>
  The theorem at a file of one track whose header announces one track.
\<close>

theorem File_encode_track_count_is_header_field_witness:
  "File_encode \<lparr>Header = \<lparr>Format = 0, NumberOfTracks = 1, Division = 0xC0\<rparr>,
                 Tracks = [\<lparr>Events = [Meta \<lparr>Type = 0x2F, Data = []\<rparr>]\<rparr>]\<rparr>
     = Inr [0x4D, 0x54, 0x68, 0x64, 0, 0, 0, 6, 0, 0, 0, 1, 0, 0xC0,
            0x4D, 0x54, 0x72, 0x6B, 0, 0, 0, 4, 0, 0xFF, 0x2F, 0]
   \<and> getUint16 (take 2 (drop 10
         [0x4D, 0x54, 0x68, 0x64, 0, 0, 0, 6, 0, 0, 0, 1, 0, 0xC0,
          0x4D, 0x54, 0x72, 0x6B, 0, 0, 0, 4, 0, 0xFF, 0x2F, 0])) = 1"
proof -
  have enc: "File_encode \<lparr>Header = \<lparr>Format = 0, NumberOfTracks = 1, Division = 0xC0\<rparr>,
                 Tracks = [\<lparr>Events = [Meta \<lparr>Type = 0x2F, Data = []\<rparr>]\<rparr>]\<rparr>
     = Inr [0x4D, 0x54, 0x68, 0x64, 0, 0, 0, 6, 0, 0, 0, 1, 0, 0xC0,
            0x4D, 0x54, 0x72, 0x6B, 0, 0, 0, 4, 0, 0xFF, 0x2F, 0]"
    by (simp add: File_encode_def Header_encode_def Track_encode_def encodeEvents_def
        MetaEvent_EncodeMIDI_def encodeVarint_def MThd_def MTrk_def putUint32_def putUint16_def)
  from File_encode_track_count_is_header_field [OF enc] enc show ?thesis by simp
qed

text \<open>
  C5 as stated fails: a file whose header announces five tracks and which has none is
  written with the track count 5.
\<close>

theorem File_encode_track_count_counterexample:
  "File_encode \<lparr>Header = \<lparr>Format = 0, NumberOfTracks = 5, Division = 0xC0\<rparr>, Tracks = []\<rparr>
     = Inr [0x4D, 0x54, 0x68, 0x64, 0, 0, 0, 6, 0, 0, 0, 5, 0, 0xC0]
   \<and> getUint16 (take 2 (drop 10 [0x4D, 0x54, 0x68, 0x64, 0, 0, 0, 6, 0, 0, 0, 5, 0, 0xC0])) = 5
   \<and> length (Tracks \<lparr>Header = \<lparr>Format = 0, NumberOfTracks = 5, Division = 0xC0\<rparr>,
                       Tracks = []\<rparr>) = 0"
  by (simp add: File_encode_def Header_encode_def MThd_def putUint32_def putUint16_def
      getUint16_def)

lemma encodeEventsLoop_nonTimeDelta:
  "\<forall>t. e \<noteq> TimeDelta t \<Longrightarrow>
   encodeEventsLoop rv delay i (e # evts) =
     (case EncodeMIDI e of
        Inl err \<Rightarrow> Inl (ErrorEncodingEvent i err)
      | Inr encoded \<Rightarrow> encodeEventsLoop ((rv @ encodeVarint delay) @ encoded) 0 (Suc i) evts)"
  by (cases e) (simp_all add: Let_def)

lemma encodeEventsLoop_TimeDeltas:
  "encodeEventsLoop rv delay i (map TimeDelta ds @ evts) =
     encodeEventsLoop rv (delay + sum_list ds) (i + length ds) evts"
  by (induction ds arbitrary: delay i) (simp_all add: add.assoc)

lemma encodeEventsLoop_body:
  "encodeEventsLoop rv delay i evts = Inr out \<Longrightarrow>
   \<exists>body. out = rv @ body \<and> (\<forall>rv' i'. encodeEventsLoop rv' delay i' evts = Inr (rv' @ body))"
proof (induction evts arbitrary: rv delay i out)
  case Nil
  then show ?case by simp
next
  case (Cons e evts)
  show ?case
  proof (cases "\<exists>t. e = TimeDelta t")
    case True
    then obtain t where e: "e = TimeDelta t" by blast
    with Cons.prems have "encodeEventsLoop rv (delay + t) (Suc i) evts = Inr out" by simp
    from Cons.IH [OF this] obtain body where "out = rv @ body"
      and "\<forall>rv' i'. encodeEventsLoop rv' (delay + t) i' evts = Inr (rv' @ body)"
      by blast
    then show ?thesis using e by (intro exI [of _ body]) simp
  next
    case False
    then have ne: "\<forall>t. e \<noteq> TimeDelta t" by blast
    from Cons.prems obtain w where w: "EncodeMIDI e = Inr w"
      and rest: "encodeEventsLoop ((rv @ encodeVarint delay) @ w) 0 (Suc i) evts = Inr out"
      by (auto simp: encodeEventsLoop_nonTimeDelta [OF ne] split: sum.splits)
    from Cons.IH [OF rest] obtain body where
      out: "out = ((rv @ encodeVarint delay) @ w) @ body"
      and all: "\<forall>rv' i'. encodeEventsLoop rv' 0 i' evts = Inr (rv' @ body)"
      by blast
    have "\<forall>rv' i'. encodeEventsLoop rv' delay i' (e # evts)
            = Inr (rv' @ (encodeVarint delay @ w @ body))"
      using all w by (simp add: encodeEventsLoop_nonTimeDelta [OF ne])
    with out show ?thesis by (intro exI [of _ "encodeVarint delay @ w @ body"]) simp
  qed
qed

lemma encodeEventsLoop_prefix:
  "encodeEventsLoop rv delay i pre = Inr o1 \<Longrightarrow>
   pre \<noteq> [] \<Longrightarrow> \<forall>t. last pre \<noteq> TimeDelta t \<Longrightarrow>
   encodeEventsLoop rv delay i (pre @ rest) = encodeEventsLoop o1 0 (i + length pre) rest"
proof (induction pre arbitrary: rv delay i)
  case Nil
  then show ?case by simp
next
  case (Cons e pre)
  show ?case
  proof (cases "pre = []")
    case True
    with Cons.prems have ne: "\<forall>t. e \<noteq> TimeDelta t" by simp
    from Cons.prems True show ?thesis
      by (auto simp: encodeEventsLoop_nonTimeDelta [OF ne] split: sum.splits)
  next
    case False
    with Cons.prems have lst: "\<forall>t. last pre \<noteq> TimeDelta t" by simp
    show ?thesis
    proof (cases "\<exists>t. e = TimeDelta t")
      case True
      then obtain t where e: "e = TimeDelta t" by blast
      with Cons.prems have "encodeEventsLoop rv (delay + t) (Suc i) pre = Inr o1" by simp
      from Cons.IH [OF this False lst] show ?thesis using e by simp
    next
      case False
      then have ne: "\<forall>t. e \<noteq> TimeDelta t" by blast
      from Cons.prems obtain w where w: "EncodeMIDI e = Inr w"
        and r: "encodeEventsLoop ((rv @ encodeVarint delay) @ w) 0 (Suc i) pre = Inr o1"
        by (auto simp: encodeEventsLoop_nonTimeDelta [OF ne] split: sum.splits)
      from Cons.IH [OF r \<open>pre \<noteq> []\<close> lst] show ?thesis using w
        by (simp add: encodeEventsLoop_nonTimeDelta [OF ne])
    qed
  qed
qed

lemma encodeEventsLoop_trailing:
  "encodeEventsLoop rv delay i (evts @ map TimeDelta ds) = encodeEventsLoop rv delay i evts"
proof (induction evts arbitrary: rv delay i)
  case Nil
  show ?case using encodeEventsLoop_TimeDeltas [of rv delay i ds "[]"] by simp
next
  case (Cons e evts)
  show ?case
  proof (cases "\<exists>t. e = TimeDelta t")
    case True
    then show ?thesis using Cons.IH by auto
  next
    case False
    then have ne: "\<forall>t. e \<noteq> TimeDelta t" by blast
    show ?thesis
      by (simp add: encodeEventsLoop_nonTimeDelta [OF ne] Cons.IH split: sum.splits)
  qed
qed

text \<open>
  C9. After a prefix \<open>pre\<close> that is empty or ends in an event other than a TimeDelta, a
  run of TimeDelta events \<open>ds\<close> followed by another event \<open>e\<close> is written as the
  variable-length quantity of the sum of \<open>ds\<close> and then the bytes of \<open>e\<close>, and the events
  after \<open>e\<close> are written as if they started a track, the pending delay being 0 again.
  TimeDelta events at the end of the sequence add nothing to the output.
\<close>

theorem encodeEvents_pending_delay:
  "(encodeEvents pre = Inr o1 \<and> (pre = [] \<or> (\<forall>t. last pre \<noteq> TimeDelta t))
      \<and> (\<forall>t. e \<noteq> TimeDelta t) \<and> EncodeMIDI e = Inr w \<and> encodeEvents evts = Inr o2
      \<longrightarrow> encodeEvents (pre @ map TimeDelta ds @ e # evts)
            = Inr (o1 @ encodeVarint (sum_list ds) @ w @ o2))
   \<and> encodeEvents (evts @ map TimeDelta ds) = encodeEvents evts"
proof (intro conjI impI)
  assume a: "encodeEvents pre = Inr o1 \<and> (pre = [] \<or> (\<forall>t. last pre \<noteq> TimeDelta t))
      \<and> (\<forall>t. e \<noteq> TimeDelta t) \<and> EncodeMIDI e = Inr w \<and> encodeEvents evts = Inr o2"
  then have ne: "\<forall>t. e \<noteq> TimeDelta t" and w: "EncodeMIDI e = Inr w" by simp_all
  from a have "encodeEventsLoop [] 0 0 evts = Inr o2" by (simp add: encodeEvents_def)
  from encodeEventsLoop_body [OF this]
  have tail: "encodeEventsLoop rv' 0 i' evts = Inr (rv' @ o2)" for rv' i'
    by auto
  have mid: "encodeEventsLoop rv 0 i (map TimeDelta ds @ e # evts)
               = Inr (rv @ encodeVarint (sum_list ds) @ w @ o2)" for rv i
    by (simp add: encodeEventsLoop_TimeDeltas encodeEventsLoop_nonTimeDelta [OF ne] w tail)
  show "encodeEvents (pre @ map TimeDelta ds @ e # evts)
          = Inr (o1 @ encodeVarint (sum_list ds) @ w @ o2)"
  proof (cases "pre = []")
    case True
    with a have "o1 = []" by (simp add: encodeEvents_def)
    with True mid [of "[]" 0] show ?thesis by (simp add: encodeEvents_def)
  next
    case False
    with a have lst: "\<forall>t. last pre \<noteq> TimeDelta t" by simp
    from a have "encodeEventsLoop [] 0 0 pre = Inr o1" by (simp add: encodeEvents_def)
    from encodeEventsLoop_prefix [OF this False lst] mid show ?thesis
      by (simp add: encodeEvents_def)
  qed
next
  show "encodeEvents (evts @ map TimeDelta ds) = encodeEvents evts"
    by (simp add: encodeEvents_def encodeEventsLoop_trailing)
qed

text \<open>
  The theorem at a text event, two deltas of 100 ticks and an end of track, and at an
  end of track followed by the two deltas.
\<close>

theorem encodeEvents_pending_delay_witness:
  "encodeEvents [Meta \<lparr>Type = 0x01, Data = [0x41]\<rparr>] = Inr [0x00, 0xFF, 0x01, 0x01, 0x41]
   \<and> (\<forall>t. last [Meta \<lparr>Type = 0x01, Data = [0x41]\<rparr>] \<noteq> TimeDelta t)
   \<and> (\<forall>t. Meta \<lparr>Type = 0x2F, Data = []\<rparr> \<noteq> TimeDelta t)
   \<and> EncodeMIDI (Meta \<lparr>Type = 0x2F, Data = []\<rparr>) = Inr [0xFF, 0x2F, 0x00]
   \<and> encodeEvents [] = Inr []
   \<and> encodeEvents ([Meta \<lparr>Type = 0x01, Data = [0x41]\<rparr>] @ map TimeDelta [100, 100]
         @ Meta \<lparr>Type = 0x2F, Data = []\<rparr> # [])
       = Inr ([0x00, 0xFF, 0x01, 0x01, 0x41] @ [0x81, 0x48] @ [0xFF, 0x2F, 0x00] @ [])
   \<and> encodeEvents ([Meta \<lparr>Type = 0x2F, Data = []\<rparr>] @ map TimeDelta [100, 100])
       = Inr [0x00, 0xFF, 0x2F, 0x00]"
proof -
  have v: "encodeVarint 200 = [0x81, 0x48]"
    by (simp add: encodeVarint_def encodeVarintSeptets.simps drop_bit_eq_div)
  have p: "encodeEvents [Meta \<lparr>Type = 0x01, Data = [0x41]\<rparr>] = Inr [0x00, 0xFF, 0x01, 0x01, 0x41]"
    by (simp add: encodeEvents_def MetaEvent_EncodeMIDI_def encodeVarint_def
        encodeVarintSeptets.simps drop_bit_eq_div)
  have w: "EncodeMIDI (Meta \<lparr>Type = 0x2F, Data = []\<rparr>) = Inr [0xFF, 0x2F, 0x00]"
    by (simp add: MetaEvent_EncodeMIDI_def encodeVarint_def)
  have e: "encodeEvents [] = Inr []"
    by (simp add: encodeEvents_def)
  have q: "encodeEvents [Meta \<lparr>Type = 0x2F, Data = []\<rparr>] = Inr [0x00, 0xFF, 0x2F, 0x00]"
    by (simp add: encodeEvents_def MetaEvent_EncodeMIDI_def encodeVarint_def)
  show ?thesis
    using encodeEvents_pending_delay [of "[Meta \<lparr>Type = 0x01, Data = [0x41]\<rparr>]"
        "[0x00, 0xFF, 0x01, 0x01, 0x41]" "Meta \<lparr>Type = 0x2F, Data = []\<rparr>" "[0xFF, 0x2F, 0x00]"
        "[]" "[]" "[100, 100]"]
      encodeEvents_pending_delay [of "[]" "[]" "Meta \<lparr>Type = 0x2F, Data = []\<rparr>"
        "[0xFF, 0x2F, 0x00]" "[Meta \<lparr>Type = 0x2F, Data = []\<rparr>]" "[]" "[100, 100]"]
      p w e q v
    by simp
qed


section \<open>Properties of the file parser\<close>

lemma parseTracks_saw_has_track:
  "parseTracks strict i k r tracks saw nm = Inr (tracks', saw', nm') \<Longrightarrow>
   (saw \<longrightarrow> tracks \<noteq> []) \<Longrightarrow> (saw' \<longrightarrow> tracks' \<noteq> [])"
proof (induction k arbitrary: i r tracks saw nm)
  case 0
  then show ?case by simp
next
  case (Suc k)
  show ?case
  proof (cases "parseTrack r")
    case (NotMidiTrack err r')
    with Suc.prems have "\<not> strict"
      by (cases strict) simp_all
    with Suc.prems NotMidiTrack have
      "parseTracks strict (Suc i) k r' tracks saw (if nm = None then Some err else nm)
         = Inr (tracks', saw', nm')"
      by simp
    from Suc.IH [OF this Suc.prems(2)] show ?thesis .
  next
    case (MidiTrackError err)
    with Suc.prems show ?thesis by simp
  next
    case (MidiTrack trk r')
    with Suc.prems have
      "parseTracks strict (Suc i) k r' (tracks @ [trk]) True nm = Inr (tracks', saw', nm')"
      by simp
    from Suc.IH [OF this] show ?thesis by simp
  qed
qed

text \<open>
  C10. When the header can be read and announces no track, \<open>Parse\<close> fails with
  "no MIDI tracks found", whatever follows the header; and whatever the input, a file
  that \<open>Parse\<close> returns has at least one track.
\<close>

theorem Parse_no_tracks:
  "(parseHeader r = Inr (hdr, r1) \<and> NumberOfTracks hdr = 0
      \<longrightarrow> Parse r = Inl (WithContext (NoMidiTracks None)))
   \<and> (Parse r = Inr f \<longrightarrow> Tracks f \<noteq> [])"
proof (intro conjI impI)
  assume "parseHeader r = Inr (hdr, r1) \<and> NumberOfTracks hdr = 0"
  then show "Parse r = Inl (WithContext (NoMidiTracks None))"
    by (simp add: Parse_def parse_def)
next
  assume ok: "Parse r = Inr f"
  then obtain hdr r1 tracks saw nm where
    "parseTracks False 0 (unat (NumberOfTracks hdr)) r1 [] False None = Inr (tracks, saw, nm)"
    and saw: saw and f: "f = \<lparr>Header = hdr, Tracks = tracks\<rparr>"
    by (auto simp: Parse_def parse_def split: sum.splits if_splits)
  from parseTracks_saw_has_track [OF this(1)] saw f show "Tracks f \<noteq> []"
    by simp
qed

text \<open>
  The theorem at a file whose header announces no track and is followed by a well-formed
  track, and at the same file with one track announced.
\<close>

theorem Parse_no_tracks_witness:
  "parseHeader [0x4D, 0x54, 0x68, 0x64, 0, 0, 0, 6, 0, 1, 0, 0, 0, 0xC0,
                0x4D, 0x54, 0x72, 0x6B, 0, 0, 0, 4, 0, 0xFF, 0x2F, 0]
     = Inr (\<lparr>Format = 1, NumberOfTracks = 0, Division = 0xC0\<rparr>,
            [0x4D, 0x54, 0x72, 0x6B, 0, 0, 0, 4, 0, 0xFF, 0x2F, 0])
   \<and> Parse [0x4D, 0x54, 0x68, 0x64, 0, 0, 0, 6, 0, 1, 0, 0, 0, 0xC0,
            0x4D, 0x54, 0x72, 0x6B, 0, 0, 0, 4, 0, 0xFF, 0x2F, 0]
     = Inl (WithContext (NoMidiTracks None))
   \<and> Parse [0x4D, 0x54, 0x68, 0x64, 0, 0, 0, 6, 0, 0, 0, 1, 0, 0xC0,
            0x4D, 0x54, 0x72, 0x6B, 0, 0, 0, 4, 0, 0xFF, 0x2F, 0]
     = Inr \<lparr>Header = \<lparr>Format = 0, NumberOfTracks = 1, Division = 0xC0\<rparr>,
            Tracks = [\<lparr>Events = [Meta \<lparr>Type = 0x2F, Data = []\<rparr>]\<rparr>]\<rparr>
   \<and> Tracks \<lparr>Header = \<lparr>Format = 0, NumberOfTracks = 1, Division = 0xC0\<rparr>,
            Tracks = [\<lparr>Events = [Meta \<lparr>Type = 0x2F, Data = []\<rparr>]\<rparr>]\<rparr> \<noteq> []"
proof -
  have h0: "parseHeader [0x4D, 0x54, 0x68, 0x64, 0, 0, 0, 6, 0, 1, 0, 0, 0, 0xC0,
                0x4D, 0x54, 0x72, 0x6B, 0, 0, 0, 4, 0, 0xFF, 0x2F, 0]
     = Inr (\<lparr>Format = 1, NumberOfTracks = 0, Division = 0xC0\<rparr>,
            [0x4D, 0x54, 0x72, 0x6B, 0, 0, 0, 4, 0, 0xFF, 0x2F, 0])"
    by (simp add: parseHeader_def readLiteralExpecting_def parseSizedChunk_def
        binaryReadUint32_def getUint32_def getUint16_def MThd_def Let_def)
  have h1: "parseHeader [0x4D, 0x54, 0x68, 0x64, 0, 0, 0, 6, 0, 0, 0, 1, 0, 0xC0,
                0x4D, 0x54, 0x72, 0x6B, 0, 0, 0, 4, 0, 0xFF, 0x2F, 0]
     = Inr (\<lparr>Format = 0, NumberOfTracks = 1, Division = 0xC0\<rparr>,
            [0x4D, 0x54, 0x72, 0x6B, 0, 0, 0, 4, 0, 0xFF, 0x2F, 0])"
    by (simp add: parseHeader_def readLiteralExpecting_def parseSizedChunk_def
        binaryReadUint32_def getUint32_def getUint16_def MThd_def Let_def)
  have body: "parseTrackBody [0x00, 0xFF, 0x2F, 0x00]
         = Inr [\<lparr>kind = metaEvent, typeByte = 0x2F, data = [], timeDelta = 0\<rparr>]"
    by (simp add: parseTrackBody_def parseTrackBodyLoop.simps readVarint_def readSingleEvent_def
        feedByte_def feedByteInternal_def newEventDataParser_def Let_def)
  have trk: "parseTrack [0x4D, 0x54, 0x72, 0x6B, 0, 0, 0, 4, 0, 0xFF, 0x2F, 0]
     = MidiTrack \<lparr>Events = [Meta \<lparr>Type = 0x2F, Data = []\<rparr>]\<rparr> []"
    using body
    by (simp add: parseTrack_def readLiteralExpecting_def readSizedChunk_def
        binaryReadUint32_def getUint32_def MTrk_def Let_def presentEvent_def)
  have p1: "Parse [0x4D, 0x54, 0x68, 0x64, 0, 0, 0, 6, 0, 0, 0, 1, 0, 0xC0,
            0x4D, 0x54, 0x72, 0x6B, 0, 0, 0, 4, 0, 0xFF, 0x2F, 0]
     = Inr \<lparr>Header = \<lparr>Format = 0, NumberOfTracks = 1, Division = 0xC0\<rparr>,
            Tracks = [\<lparr>Events = [Meta \<lparr>Type = 0x2F, Data = []\<rparr>]\<rparr>]\<rparr>"
    by (simp add: Parse_def parse_def h1 trk)
  show ?thesis
    using Parse_no_tracks [of
        "[0x4D, 0x54, 0x68, 0x64, 0, 0, 0, 6, 0, 1, 0, 0, 0, 0xC0,
          0x4D, 0x54, 0x72, 0x6B, 0, 0, 0, 4, 0, 0xFF, 0x2F, 0]"
        "\<lparr>Format = 1, NumberOfTracks = 0, Division = 0xC0\<rparr>"
        "[0x4D, 0x54, 0x72, 0x6B, 0, 0, 0, 4, 0, 0xFF, 0x2F, 0]"]
      Parse_no_tracks [of
        "[0x4D, 0x54, 0x68, 0x64, 0, 0, 0, 6, 0, 0, 0, 1, 0, 0xC0,
          0x4D, 0x54, 0x72, 0x6B, 0, 0, 0, 4, 0, 0xFF, 0x2F, 0]"
        _ _ "\<lparr>Header = \<lparr>Format = 0, NumberOfTracks = 1, Division = 0xC0\<rparr>,
            Tracks = [\<lparr>Events = [Meta \<lparr>Type = 0x2F, Data = []\<rparr>]\<rparr>]\<rparr>"]
      h0 p1
    by simp
qed


section \<open>The round trip of a track\<close>

lemma sint_of_nat_length:
  "n < 2 ^ 63 \<Longrightarrow> sint (of_nat n :: uint64) = int n"
proof -
  assume "n < 2 ^ 63"
  then have "int n < 2 ^ 63" by (metis of_nat_less_iff of_nat_numeral of_nat_power)
  then show ?thesis
    by (simp add: signed_of_nat signed_take_bit_int_eq_self)
qed

lemma of_nat_length_eq_0:
  "n < 2 ^ 63 \<Longrightarrow> (of_nat n :: uint64) = 0 \<longleftrightarrow> n = 0"
  using sint_of_nat_length [of n] by (cases "n = 0") auto

lemma ucast_and_7f: "ucast (b :: byte) AND (0x7F :: uint64) = ucast (b AND 0x7f)"
  by (simp add: unsigned_and_eq)

lemma encodeVarintSeptets_nonzero:
  "j < length (encodeVarintSeptets n []) \<Longrightarrow> drop_bit (7 * j) n \<noteq> 0"
proof (induction j arbitrary: n)
  case 0
  then have "n > 0" by (subst (asm) encodeVarintSeptets_unfold) (auto split: if_splits)
  then show ?case by (simp add: word_gt_0)
next
  case (Suc j)
  have pos: "n > 0" using Suc.prems by (subst (asm) encodeVarintSeptets_unfold) (auto split: if_splits)
  have "j < length (encodeVarintSeptets (drop_bit 7 n) [])"
    using Suc.prems pos by (subst (asm) encodeVarintSeptets_unfold) simp
  from Suc.IH [OF this] show ?case by (simp add: add.commute)
qed

text \<open>One step of a length register over the byte the encoder emits at index \<open>k\<close>.\<close>

lemma length_register_byte:
  assumes "x = (ucast (m AND 0x7f :: uint64) :: byte)"
    and "b = (if c then x OR 0x80 else x)"
  shows "push_bit 7 (drop_bit 7 m) OR (ucast b AND 0x7F) = m"
    and "(b AND 0x80 = 0) = (\<not> c)"
proof -
  show "push_bit 7 (drop_bit 7 m) OR (ucast b AND 0x7F) = m"
  proof (cases c)
    case True
    with assms have "b = ucast (m AND 0x7f) OR 0x80" by simp
    then show ?thesis
      by (simp only: ucast_and_7f septet_of_flagged shift_septet_ident)
  next
    case False
    with assms have "b = ucast (m AND 0x7f)" by simp
    then show ?thesis
      by (simp only: ucast_and_7f septet_of_byte shift_septet_ident)
  qed
  show "(b AND 0x80 = 0) = (\<not> c)"
    using assms by (cases c) (simp_all add: septet_high_bit_clear flagged_high_bit_set)
qed

lemma length_register_step:
  assumes "k < length (encodeVarintSeptets n [])"
  shows "push_bit 7 (drop_bit (7 * Suc k) n)
           OR (ucast (if k \<noteq> 0 then (encodeVarintSeptets n [] ! k) OR 0x80
                      else encodeVarintSeptets n [] ! k) AND 0x7F)
         = drop_bit (7 * k) n"
proof -
  have nth: "encodeVarintSeptets n [] ! k = ucast (drop_bit (7 * k) n AND 0x7f)"
    using assms by (simp add: encodeVarintSeptets_nth)
  have shift: "drop_bit (7 * Suc k) n = drop_bit 7 (drop_bit (7 * k) n)"
    by (simp add: add.commute)
  show ?thesis
    unfolding shift by (rule length_register_byte(1) [OF nth refl])
qed

lemma emitted_byte_flag:
  assumes "k < length (encodeVarintSeptets n [])"
  shows "((if k \<noteq> 0 then (encodeVarintSeptets n [] ! k) OR 0x80
           else encodeVarintSeptets n [] ! k) AND 0x80 = 0) = (k = 0)"
proof -
  have nth: "encodeVarintSeptets n [] ! k = ucast (drop_bit (7 * k) n AND 0x7f)"
    using assms by (simp add: encodeVarintSeptets_nth)
  from length_register_byte(2) [OF nth refl, of "k \<noteq> 0"] show ?thesis by simp
qed

lemma meta_length_loop:
  assumes "0 < k" and "k \<le> length (encodeVarintSeptets n [])"
    and "state p = wantMetaLength" and "metaLength p = drop_bit (7 * k) n"
  shows "\<exists>p'. readSingleEventLoop p began (encodeVarintEmit (encodeVarintSeptets n []) k [] @ rest)
               = readSingleEventLoop p' True rest
           \<and> state p' = wantMetaData \<and> metaLength p' = n
           \<and> eventData p' = eventData p \<and> metaEventType p' = metaEventType p
           \<and> runningStatus p' = runningStatus p \<and> events p' = events p"
  using assms
proof (induction k arbitrary: p began)
  case 0
  then show ?case by simp
next
  case (Suc k)
  let ?S = "encodeVarintSeptets n []"
  let ?b = "if k \<noteq> 0 then (?S ! k) OR 0x80 else ?S ! k"
  have kl: "k < length ?S" using Suc.prems by simp
  have acc: "push_bit 7 (metaLength p) OR (ucast ?b AND 0x7F) = drop_bit (7 * k) n"
    using length_register_step [OF kl] Suc.prems(4) by simp
  have nz: "drop_bit (7 * k) n \<noteq> 0"
    by (rule encodeVarintSeptets_nonzero [OF kl])
  have fl: "(?b AND 0x80 = 0) = (k = 0)"
    by (rule emitted_byte_flag [OF kl])
  show ?case
  proof (cases "k = 0")
    case True
    let ?p' = "p\<lparr>metaLength := n, state := wantMetaData, bytesFed := bytesFed p + 1\<rparr>"
    have "feedByte p ?b = Inr (False, ?p')"
      using Suc.prems(3) acc nz fl True
      by (simp add: feedByte_def feedByteInternal_def Let_def)
    then have "readSingleEventLoop p began (encodeVarintEmit ?S (Suc k) [] @ rest)
                 = readSingleEventLoop ?p' True rest"
      using True by (simp add: encodeVarintEmit_Suc del: encodeVarintEmit.simps(2))
    then show ?thesis
      by (intro exI [of _ ?p']) simp
  next
    case False
    let ?p1 = "p\<lparr>metaLength := drop_bit (7 * k) n, bytesFed := bytesFed p + 1\<rparr>"
    have fb: "feedByte p ?b = Inr (False, ?p1)"
      using Suc.prems(3) acc nz fl False
      by (simp add: feedByte_def feedByteInternal_def Let_def)
    have "\<exists>p'. readSingleEventLoop ?p1 True (encodeVarintEmit ?S k [] @ rest)
               = readSingleEventLoop p' True rest
           \<and> state p' = wantMetaData \<and> metaLength p' = n
           \<and> eventData p' = eventData ?p1 \<and> metaEventType p' = metaEventType ?p1
           \<and> runningStatus p' = runningStatus ?p1 \<and> events p' = events ?p1"
      using False Suc.prems by (intro Suc.IH) simp_all
    then obtain p' where p': "readSingleEventLoop ?p1 True (encodeVarintEmit ?S k [] @ rest)
               = readSingleEventLoop p' True rest"
      "state p' = wantMetaData" "metaLength p' = n" "eventData p' = eventData p"
      "metaEventType p' = metaEventType p" "runningStatus p' = runningStatus p"
      "events p' = events p"
      by auto
    have "readSingleEventLoop p began (encodeVarintEmit ?S (Suc k) [] @ rest)
            = readSingleEventLoop ?p1 True (encodeVarintEmit ?S k [] @ rest)"
      using fb by (simp add: encodeVarintEmit_Suc del: encodeVarintEmit.simps(2))
    with p' show ?thesis
      by (intro exI [of _ p']) simp
  qed
qed

lemma meta_data_loop:
  assumes "state p = wantMetaData" and "d \<noteq> []"
    and "sint (metaLength p) = int (length (eventData p) + length d)"
  shows "\<exists>p'. readSingleEventLoop p began (d @ rest) = Inr (p', rest)
           \<and> state p' = wantEvent \<and> eventData p' = []
           \<and> runningStatus p' = runningStatus p
           \<and> events p' = events p @
               [\<lparr>kind = metaEvent, typeByte = metaEventType p,
                 data = eventData p @ d, timeDelta = 0\<rparr>]"
  using assms
proof (induction d arbitrary: p began)
  case Nil
  then show ?case by simp
next
  case (Cons b d)
  show ?case
  proof (cases "d = []")
    case True
    with Cons.prems show ?thesis
      by (simp add: feedByte_def feedByteInternal_def Let_def)
  next
    case False
    let ?p1 = "p\<lparr>eventData := eventData p @ [b], bytesFed := bytesFed p + 1\<rparr>"
    have fb: "feedByte p b = Inr (False, ?p1)"
      using Cons.prems False
      by (simp add: feedByte_def feedByteInternal_def Let_def)
    have "\<exists>p'. readSingleEventLoop ?p1 True (d @ rest) = Inr (p', rest)
           \<and> state p' = wantEvent \<and> eventData p' = []
           \<and> runningStatus p' = runningStatus ?p1
           \<and> events p' = events ?p1 @
               [\<lparr>kind = metaEvent, typeByte = metaEventType ?p1,
                 data = eventData ?p1 @ d, timeDelta = 0\<rparr>]"
      using Cons.prems False by (intro Cons.IH) simp_all
    then show ?thesis
      using fb by simp
  qed
qed

lemma sysex_length_loop:
  assumes "0 < k" and "k \<le> length (encodeVarintSeptets n [])"
    and "state p = wantSysexLength" and "sysexLength p = drop_bit (7 * k) n"
  shows "\<exists>p'. readSingleEventLoop p began (encodeVarintEmit (encodeVarintSeptets n []) k [] @ rest)
               = readSingleEventLoop p' True rest
           \<and> state p' = wantSysexData \<and> sysexLength p' = n
           \<and> sysexData p' = sysexData p \<and> currentSysexType p' = currentSysexType p
           \<and> eventData p' = eventData p
           \<and> runningStatus p' = runningStatus p \<and> events p' = events p"
  using assms
proof (induction k arbitrary: p began)
  case 0
  then show ?case by simp
next
  case (Suc k)
  let ?S = "encodeVarintSeptets n []"
  let ?b = "if k \<noteq> 0 then (?S ! k) OR 0x80 else ?S ! k"
  have kl: "k < length ?S" using Suc.prems by simp
  have acc: "push_bit 7 (sysexLength p) OR (ucast ?b AND 0x7F) = drop_bit (7 * k) n"
    using length_register_step [OF kl] Suc.prems(4) by simp
  have nz: "drop_bit (7 * k) n \<noteq> 0"
    by (rule encodeVarintSeptets_nonzero [OF kl])
  have fl: "(?b AND 0x80 = 0) = (k = 0)"
    by (rule emitted_byte_flag [OF kl])
  show ?case
  proof (cases "k = 0")
    case True
    let ?p' = "p\<lparr>sysexLength := n, state := wantSysexData, bytesFed := bytesFed p + 1\<rparr>"
    have "feedByte p ?b = Inr (False, ?p')"
      using Suc.prems(3) acc nz fl True
      by (simp add: feedByte_def feedByteInternal_def Let_def)
    then have "readSingleEventLoop p began (encodeVarintEmit ?S (Suc k) [] @ rest)
                 = readSingleEventLoop ?p' True rest"
      using True by (simp add: encodeVarintEmit_Suc del: encodeVarintEmit.simps(2))
    then show ?thesis
      by (intro exI [of _ ?p']) simp
  next
    case False
    let ?p1 = "p\<lparr>sysexLength := drop_bit (7 * k) n, bytesFed := bytesFed p + 1\<rparr>"
    have fb: "feedByte p ?b = Inr (False, ?p1)"
      using Suc.prems(3) acc nz fl False
      by (simp add: feedByte_def feedByteInternal_def Let_def)
    have "\<exists>p'. readSingleEventLoop ?p1 True (encodeVarintEmit ?S k [] @ rest)
               = readSingleEventLoop p' True rest
           \<and> state p' = wantSysexData \<and> sysexLength p' = n
           \<and> sysexData p' = sysexData ?p1 \<and> currentSysexType p' = currentSysexType ?p1
           \<and> eventData p' = eventData ?p1
           \<and> runningStatus p' = runningStatus ?p1 \<and> events p' = events ?p1"
      using False Suc.prems by (intro Suc.IH) simp_all
    then obtain p' where p': "readSingleEventLoop ?p1 True (encodeVarintEmit ?S k [] @ rest)
               = readSingleEventLoop p' True rest"
      "state p' = wantSysexData" "sysexLength p' = n" "sysexData p' = sysexData p"
      "currentSysexType p' = currentSysexType p" "eventData p' = eventData p"
      "runningStatus p' = runningStatus p" "events p' = events p"
      by auto
    have "readSingleEventLoop p began (encodeVarintEmit ?S (Suc k) [] @ rest)
            = readSingleEventLoop ?p1 True (encodeVarintEmit ?S k [] @ rest)"
      using fb by (simp add: encodeVarintEmit_Suc del: encodeVarintEmit.simps(2))
    with p' show ?thesis
      by (intro exI [of _ p']) simp
  qed
qed

lemma sysex_data_loop:
  assumes "state p = wantSysexData" and "d \<noteq> []"
    and "sint (sysexLength p) = int (length (sysexData p) + length d)"
  shows "\<exists>p'. readSingleEventLoop p began (d @ rest) = Inr (p', rest)
           \<and> state p' = wantEvent \<and> eventData p' = eventData p
           \<and> runningStatus p' = runningStatus p
           \<and> events p' = events p @
               [\<lparr>kind = sysexEvent, typeByte = currentSysexType p,
                 data = sysexData p @ d, timeDelta = 0\<rparr>]"
  using assms
proof (induction d arbitrary: p began)
  case Nil
  then show ?case by simp
next
  case (Cons b d)
  show ?case
  proof (cases "d = []")
    case True
    with Cons.prems show ?thesis
      by (simp add: feedByte_def feedByteInternal_def flushSysexEvent_def Let_def)
  next
    case False
    let ?p1 = "p\<lparr>sysexData := sysexData p @ [b], bytesFed := bytesFed p + 1\<rparr>"
    have fb: "feedByte p b = Inr (False, ?p1)"
      using Cons.prems False
      by (simp add: feedByte_def feedByteInternal_def Let_def)
    have "\<exists>p'. readSingleEventLoop ?p1 True (d @ rest) = Inr (p', rest)
           \<and> state p' = wantEvent \<and> eventData p' = eventData ?p1
           \<and> runningStatus p' = runningStatus ?p1
           \<and> events p' = events ?p1 @
               [\<lparr>kind = sysexEvent, typeByte = currentSysexType ?p1,
                 data = sysexData ?p1 @ d, timeDelta = 0\<rparr>]"
      using Cons.prems False by (intro Cons.IH) simp_all
    then show ?thesis
      using fb by simp
  qed
qed

lemma encodeVarint_nonzero:
  "n \<noteq> 0 \<Longrightarrow>
   encodeVarint n = encodeVarintEmit (encodeVarintSeptets n []) (length (encodeVarintSeptets n [])) []
   \<and> 0 < length (encodeVarintSeptets n [])"
  by (subst (3) encodeVarintSeptets_unfold) (simp add: encodeVarint_def Let_def word_gt_0)

lemma readSingleEventLoop_meta:
  assumes "state p = wantEvent" and "length dat < 2 ^ 63"
  shows "\<exists>p'. readSingleEventLoop p began
                 ([0xFF, ty] @ encodeVarint (of_nat (length dat)) @ dat @ rest) = Inr (p', rest)
           \<and> state p' = wantEvent \<and> eventData p' = []
           \<and> runningStatus p' = runningStatus p
           \<and> events p' = events p @
               [\<lparr>kind = metaEvent, typeByte = ty, data = dat, timeDelta = 0\<rparr>]"
proof -
  let ?p1 = "p\<lparr>state := wantMetaType, bytesFed := bytesFed p + 1\<rparr>"
  let ?p2 = "p\<lparr>state := wantMetaLength, bytesFed := bytesFed p + 1 + 1, metaEventType := ty,
               metaLength := 0, eventData := []\<rparr>"
  let ?n = "of_nat (length dat) :: uint64"
  have f1: "feedByte p 0xFF = Inr (False, ?p1)"
    using assms(1) by (simp add: feedByte_def feedByteInternal_def)
  have f2: "feedByte ?p1 ty = Inr (False, ?p2)"
    by (simp add: feedByte_def feedByteInternal_def)
  have start: "readSingleEventLoop p began ([0xFF, ty] @ bs) = readSingleEventLoop ?p2 True bs"
    for bs
    by (simp add: f1 f2)
  show ?thesis
  proof (cases "dat = []")
    case True
    then show ?thesis
      by (simp only: start) (simp add: encodeVarint_def feedByte_def feedByteInternal_def Let_def)
  next
    case False
    then have nz: "?n \<noteq> 0"
      using assms(2) by (simp add: of_nat_length_eq_0)
    let ?S = "encodeVarintSeptets ?n []"
    from encodeVarint_nonzero [OF nz] have enc: "encodeVarint ?n = encodeVarintEmit ?S (length ?S) []"
      and pos: "0 < length ?S" by simp_all
    have "\<exists>p'. readSingleEventLoop ?p2 True (encodeVarintEmit ?S (length ?S) [] @ dat @ rest)
               = readSingleEventLoop p' True (dat @ rest)
           \<and> state p' = wantMetaData \<and> metaLength p' = ?n
           \<and> eventData p' = eventData ?p2 \<and> metaEventType p' = metaEventType ?p2
           \<and> runningStatus p' = runningStatus ?p2 \<and> events p' = events ?p2"
      using pos by (intro meta_length_loop) (simp_all add: encodeVarintSeptets_exhaust)
    then obtain q where q: "readSingleEventLoop ?p2 True (encodeVarintEmit ?S (length ?S) [] @ dat @ rest)
               = readSingleEventLoop q True (dat @ rest)"
      "state q = wantMetaData" "metaLength q = ?n" "eventData q = []" "metaEventType q = ty"
      "runningStatus q = runningStatus p" "events q = events p"
      by auto
    have "sint (metaLength q) = int (length (eventData q) + length dat)"
      using q(3,4) assms(2) by (simp add: sint_of_nat_length)
    from meta_data_loop [OF q(2) False this, of True rest] q show ?thesis
      by (simp only: start enc) simp
  qed
qed

lemma readSingleEventLoop_sysex:
  assumes "state p = wantEvent" and "eventData p = []" and "f = 0xF0 \<or> f = 0xF7"
    and "length dat < 2 ^ 63"
  shows "\<exists>p'. readSingleEventLoop p began
                 ([f] @ encodeVarint (of_nat (length dat)) @ dat @ rest) = Inr (p', rest)
           \<and> state p' = wantEvent \<and> eventData p' = []
           \<and> runningStatus p' = runningStatus p
           \<and> events p' = events p @
               [\<lparr>kind = sysexEvent, typeByte = f, data = dat, timeDelta = 0\<rparr>]"
proof -
  let ?p1 = "p\<lparr>currentSysexType := f, state := wantSysexLength, sysexLength := 0,
               sysexData := [], bytesFed := bytesFed p + 1\<rparr>"
  let ?n = "of_nat (length dat) :: uint64"
  have f1: "feedByte p f = Inr (False, ?p1)"
    using assms(1,3) by (auto simp add: feedByte_def feedByteInternal_def)
  have start: "readSingleEventLoop p began ([f] @ bs) = readSingleEventLoop ?p1 True bs" for bs
    by (simp add: f1)
  show ?thesis
  proof (cases "dat = []")
    case True
    then show ?thesis
      using assms(2)
      by (simp only: start)
        (simp add: encodeVarint_def feedByte_def feedByteInternal_def flushSysexEvent_def Let_def)
  next
    case False
    then have nz: "?n \<noteq> 0"
      using assms(4) by (simp add: of_nat_length_eq_0)
    let ?S = "encodeVarintSeptets ?n []"
    from encodeVarint_nonzero [OF nz] have enc: "encodeVarint ?n = encodeVarintEmit ?S (length ?S) []"
      and pos: "0 < length ?S" by simp_all
    have "\<exists>p'. readSingleEventLoop ?p1 True (encodeVarintEmit ?S (length ?S) [] @ dat @ rest)
               = readSingleEventLoop p' True (dat @ rest)
           \<and> state p' = wantSysexData \<and> sysexLength p' = ?n
           \<and> sysexData p' = sysexData ?p1 \<and> currentSysexType p' = currentSysexType ?p1
           \<and> eventData p' = eventData ?p1
           \<and> runningStatus p' = runningStatus ?p1 \<and> events p' = events ?p1"
      using pos by (intro sysex_length_loop) (simp_all add: encodeVarintSeptets_exhaust)
    then obtain q where q: "readSingleEventLoop ?p1 True (encodeVarintEmit ?S (length ?S) [] @ dat @ rest)
               = readSingleEventLoop q True (dat @ rest)"
      "state q = wantSysexData" "sysexLength q = ?n" "sysexData q = []"
      "currentSysexType q = f" "eventData q = []"
      "runningStatus q = runningStatus p" "events q = events p"
      using assms(2) by auto
    have "sint (sysexLength q) = int (length (sysexData q) + length dat)"
      using q(3,4) assms(4) by (simp add: sint_of_nat_length)
    from sysex_data_loop [OF q(2) False this, of True rest] q show ?thesis
      by (simp only: start enc) simp
  qed
qed

lemma nibbles_join: "(s AND 0xf0) OR (0x0f AND s) = (s :: byte)"
proof -
  have "(s AND 0xf0) OR (s AND 0x0f) = s AND (0xf0 OR 0x0f)"
    by (simp only: bit.conj_disj_distrib)
  also have "(0xf0 OR 0x0f :: byte) = - 1" by simp
  also have "s AND - 1 = s" by simp
  finally show ?thesis by (simp add: and.commute)
qed

lemma presentedMIDIEvent_encode:
  assumes "presentedMIDIEvent e"
  shows "\<exists>d spec. RawData e = Some d
           \<and> midiEventSpecs (unat (drop_bit 4 (RawType e AND 0xf0))) = Some spec
           \<and> length d = dataLen spec \<and> (\<forall>b\<in>set d. b AND 0x80 = 0)
           \<and> presentEvent \<lparr>kind = midiEvent, typeByte = RawType e, data = d, timeDelta = 0\<rparr>
               = Inr (Midi e)
           \<and> MIDIEvent_EncodeMIDI e = Inr (RawType e # d)"
proof -
  from assms obtain d spec where d: "RawData e = Some d"
    and sp: "midiEventSpecs (unat (drop_bit 4 (RawType e AND 0xf0))) = Some spec"
    and len: "length d = dataLen spec"
    and db: "\<forall>b\<in>set d. b AND 0x80 = 0"
    and pe: "presentEvent \<lparr>kind = midiEvent, typeByte = RawType e, data = d, timeDelta = 0\<rparr>
               = Inr (Midi e)"
    and ty: "MType e = RawType e AND 0xf0"
    by (auto simp: presentedMIDIEvent_def list_all_iff split: option.splits)
  from presentEvent_midi [OF sp len, of 0] pe have ch: "Channel e = uint (0x0f AND RawType e)"
    by auto
  have "MType e OR of_int (Channel e) = RawType e"
    by (simp add: ty ch nibbles_join)
  then have "MIDIEvent_EncodeMIDI e = Inr (RawType e # d)"
    by (simp add: MIDIEvent_EncodeMIDI_def d)
  with d sp len db pe show ?thesis by blast
qed

lemma readSingleEvent_encoded:
  assumes "presentedEvent e" and "\<forall>t. e \<noteq> TimeDelta t"
  shows "\<exists>w raw. EncodeMIDI e = Inr w \<and> presentEvent raw = Inr e
           \<and> (\<forall>p rest. state p = wantEvent \<longrightarrow> eventData p = [] \<longrightarrow>
                 (\<exists>p'. readSingleEvent p (w @ rest) = Inr (p', rest)
                    \<and> state p' = wantEvent \<and> eventData p' = []
                    \<and> events p' = events p @ [raw]))"
proof (cases e)
  case (TimeDelta t)
  with assms(2) show ?thesis by simp
next
  case (Sysex bs)
  with assms(1) have ne: "bs \<noteq> []" and fr: "bs ! 0 = 0xF0 \<or> bs ! 0 = 0xF7"
    and len: "length (tl bs) < 2 ^ 63"
    by simp_all
  let ?w = "[bs ! 0] @ encodeVarint (of_nat (length (tl bs))) @ tl bs"
  let ?raw = "\<lparr>kind = sysexEvent, typeByte = bs ! 0, data = tl bs, timeDelta = 0\<rparr>"
  have bs: "bs = bs ! 0 # tl bs" using ne by (cases bs) simp_all
  have enc: "EncodeMIDI e = Inr ?w"
    using ne Sysex by (cases bs; cases "tl bs") (simp_all add: SysexEvent_EncodeMIDI_def Let_def)
  have pres: "presentEvent ?raw = Inr e"
    using bs Sysex by (simp add: presentEvent_def)
  have "\<exists>p'. readSingleEvent p (?w @ rest) = Inr (p', rest)
          \<and> state p' = wantEvent \<and> eventData p' = [] \<and> events p' = events p @ [?raw]"
    if "state p = wantEvent" "eventData p = []" for p rest
    using readSingleEventLoop_sysex [OF that fr len, of False rest]
    by (auto simp: readSingleEvent_def)
  with enc pres show ?thesis by blast
next
  case (Meta m)
  with assms(1) have len: "length (Data m) < 2 ^ 63" by simp
  let ?w = "[0xFF, Type m] @ encodeVarint (of_nat (length (Data m))) @ Data m"
  let ?raw = "\<lparr>kind = metaEvent, typeByte = Type m, data = Data m, timeDelta = 0\<rparr>"
  have enc: "EncodeMIDI e = Inr ?w"
    using Meta by (simp add: MetaEvent_EncodeMIDI_def)
  have pres: "presentEvent ?raw = Inr e"
    using Meta by (simp add: presentEvent_def)
  have "\<exists>p'. readSingleEvent p (?w @ rest) = Inr (p', rest)
          \<and> state p' = wantEvent \<and> eventData p' = [] \<and> events p' = events p @ [?raw]"
    if "state p = wantEvent" "eventData p = []" for p rest
    using readSingleEventLoop_meta [OF that(1) len, of False "Type m" rest]
    by (auto simp: readSingleEvent_def)
  with enc pres show ?thesis by blast
next
  case (Midi m)
  with assms(1) have "presentedMIDIEvent m" by simp
  from presentedMIDIEvent_encode [OF this] obtain d spec where
    sp: "midiEventSpecs (unat (drop_bit 4 (RawType m AND 0xf0))) = Some spec"
    and len: "length d = dataLen spec" and db: "\<forall>b\<in>set d. b AND 0x80 = 0"
    and pe: "presentEvent \<lparr>kind = midiEvent, typeByte = RawType m, data = d, timeDelta = 0\<rparr>
               = Inr (Midi m)"
    and en: "MIDIEvent_EncodeMIDI m = Inr (RawType m # d)"
    by blast
  let ?raw = "\<lparr>kind = midiEvent, typeByte = RawType m, data = d, timeDelta = 0\<rparr>"
  have "\<exists>p'. readSingleEvent p ((RawType m # d) @ rest) = Inr (p', rest)
          \<and> state p' = wantEvent \<and> eventData p' = [] \<and> events p' = events p @ [?raw]"
    if "state p = wantEvent" "eventData p = []" for p rest
    using readSingleEventLoop_status_payload [OF that sp len db, of False rest]
    by (auto simp: readSingleEvent_def)
  with en pe Midi show ?thesis
    by (intro exI [of _ "RawType m # d"] exI [of _ ?raw]) simp
qed

lemma presentEvents_append:
  "presentEvents (xs @ ys) acc =
     (case presentEvents xs acc of Inl err \<Rightarrow> Inl err | Inr acc' \<Rightarrow> presentEvents ys acc')"
  by (induction xs arbitrary: acc) (simp_all split: sum.splits)

lemma presentEvents_timeDelta:
  "presentEvents (\<lparr>kind = timeDeltaEvent, typeByte = 0, data = [], timeDelta = d\<rparr> # raws) acc
     = presentEvents raws (acc @ [TimeDelta d])"
  by (simp add: presentEvent_def)

lemma parseTrackBodyLoop_encoded:
  assumes "\<forall>e\<in>set evts. presentedEvent e" and "state p = wantEvent" and "eventData p = []"
  shows "\<exists>body raws. encodeEventsLoop rv d i evts = Inr (rv @ body)
           \<and> parseTrackBodyLoop p body = Inr (events p @ raws)
           \<and> presentEvents raws acc = Inr (acc @ mergeTimeDeltasBeforeEvents d evts)"
  using assms
proof (induction evts arbitrary: rv d i p acc)
  case Nil
  have "parseTrackBodyLoop p [] = Inr (events p)"
    by (subst parseTrackBodyLoop.simps) (simp add: readVarint_def)
  then show ?case
    by (intro exI [of _ "[]"]) simp
next
  case (Cons e evts)
  have wf: "\<forall>e\<in>set evts. presentedEvent e" using Cons.prems(1) by simp
  show ?case
  proof (cases "\<exists>t. e = TimeDelta t")
    case True
    then obtain t where e: "e = TimeDelta t" by blast
    from Cons.IH [OF wf Cons.prems(2,3), of rv "d + t" "Suc i" acc] show ?thesis
      by (simp add: e)
  next
    case False
    then have ne: "\<forall>t. e \<noteq> TimeDelta t" by blast
    have pe: "presentedEvent e" using Cons.prems(1) by simp
    from readSingleEvent_encoded [OF pe ne] obtain w raw where
      w: "EncodeMIDI e = Inr w" and raw: "presentEvent raw = Inr e"
      and rd: "\<And>p rest. state p = wantEvent \<Longrightarrow> eventData p = [] \<Longrightarrow>
                 \<exists>p'. readSingleEvent p (w @ rest) = Inr (p', rest)
                    \<and> state p' = wantEvent \<and> eventData p' = []
                    \<and> events p' = events p @ [raw]"
      by blast
    let ?tds = "if 0 < d then [\<lparr>kind = timeDeltaEvent, typeByte = 0, data = [], timeDelta = d\<rparr>]
                else []"
    let ?p1 = "if 0 < d then addTimeDelta p d else p"
    have p1: "state ?p1 = wantEvent" "eventData ?p1 = []" "events ?p1 = events p @ ?tds"
      using Cons.prems(2,3) by (simp_all add: addTimeDelta_def)
    let ?acc1 = "(acc @ (if d = 0 then [] else [TimeDelta d])) @ [e]"
    have ex: "\<exists>p2. readSingleEvent ?p1 (w @ rest) = Inr (p2, rest)
        \<and> state p2 = wantEvent \<and> eventData p2 = [] \<and> events p2 = events ?p1 @ [raw]" for rest
      by (rule rd [OF p1(1,2)])
    have mt: "mergeTimeDeltasBeforeEvents d (e # evts)
            = (if d = 0 then [] else [TimeDelta d]) @ e # mergeTimeDeltasBeforeEvents 0 evts"
      using ne by (cases e) simp_all
    have "\<exists>body raws p2. encodeEventsLoop ((rv @ encodeVarint d) @ w) 0 (Suc i) evts
             = Inr (((rv @ encodeVarint d) @ w) @ body)
           \<and> readSingleEvent ?p1 (w @ body) = Inr (p2, body)
           \<and> events p2 = events ?p1 @ [raw]
           \<and> parseTrackBodyLoop p2 body = Inr (events p2 @ raws)
           \<and> presentEvents raws ?acc1 = Inr (?acc1 @ mergeTimeDeltasBeforeEvents 0 evts)"
    proof -
      obtain q where q: "readSingleEvent ?p1 (w @ []) = Inr (q, [])"
        "state q = wantEvent" "eventData q = []" "events q = events ?p1 @ [raw]"
        using ex [of "[]"] by blast
      from Cons.IH [OF wf q(2,3), of "(rv @ encodeVarint d) @ w" 0 "Suc i" ?acc1]
      obtain body raws0 where b: "encodeEventsLoop ((rv @ encodeVarint d) @ w) 0 (Suc i) evts
             = Inr (((rv @ encodeVarint d) @ w) @ body)"
        by blast
      obtain p2 where p2: "readSingleEvent ?p1 (w @ body) = Inr (p2, body)"
        "state p2 = wantEvent" "eventData p2 = []" "events p2 = events ?p1 @ [raw]"
        using ex [of body] by blast
      from Cons.IH [OF wf p2(2,3), of "(rv @ encodeVarint d) @ w" 0 "Suc i" ?acc1] b
      obtain raws where "parseTrackBodyLoop p2 body = Inr (events p2 @ raws)"
        "presentEvents raws ?acc1 = Inr (?acc1 @ mergeTimeDeltasBeforeEvents 0 evts)"
        by auto
      with b p2 show ?thesis by blast
    qed
    then obtain body raws p2 where
      b: "encodeEventsLoop ((rv @ encodeVarint d) @ w) 0 (Suc i) evts
             = Inr (((rv @ encodeVarint d) @ w) @ body)"
      and r: "readSingleEvent ?p1 (w @ body) = Inr (p2, body)"
      and e2: "events p2 = events ?p1 @ [raw]"
      and pt: "parseTrackBodyLoop p2 body = Inr (events p2 @ raws)"
      and pr: "presentEvents raws ?acc1 = Inr (?acc1 @ mergeTimeDeltasBeforeEvents 0 evts)"
      by blast
    have enc: "encodeEventsLoop rv d i (e # evts) = Inr (rv @ (encodeVarint d @ w @ body))"
      using b w by (simp add: encodeEventsLoop_nonTimeDelta [OF ne])
    have "parseTrackBodyLoop p (encodeVarint d @ w @ body) = parseTrackBodyLoop p2 body"
      using r by (subst parseTrackBodyLoop.simps)
        (simp add: readVarint_encodeVarint_append Let_def)
    then have parse: "parseTrackBodyLoop p (encodeVarint d @ w @ body)
        = Inr (events p @ (?tds @ raw # raws))"
      using pt e2 p1(3) by simp
    have "presentEvents (?tds @ raw # raws) acc
            = Inr (acc @ (if d = 0 then [] else [TimeDelta d])
                     @ e # mergeTimeDeltasBeforeEvents 0 evts)"
    proof (cases "d = 0")
      case True
      with pr raw show ?thesis by simp
    next
      case False
      then have "0 < d" by (simp add: word_gt_0)
      with pr raw False show ?thesis
        by (simp add: presentEvents_timeDelta del: presentEvents.simps(2))
          (simp add: raw)
    qed
    then have "presentEvents (?tds @ raw # raws) acc
            = Inr (acc @ mergeTimeDeltasBeforeEvents d (e # evts))"
      by (simp only: mt)
    with enc parse show ?thesis by blast
  qed
qed

lemma mergeTimeDeltasBeforeEvents_last:
  "evts \<noteq> [] \<Longrightarrow> \<forall>t. last evts \<noteq> TimeDelta t \<Longrightarrow>
   mergeTimeDeltasBeforeEvents d evts = mergeTimeDeltas d evts"
proof (induction evts arbitrary: d)
  case Nil
  then show ?case by simp
next
  case (Cons e evts)
  show ?case
  proof (cases "evts = []")
    case True
    with Cons.prems show ?thesis by (cases e) simp_all
  next
    case False
    with Cons.prems have "\<forall>t. last evts \<noteq> TimeDelta t" by simp
    from Cons.IH [OF False this] show ?thesis by (cases e) simp_all
  qed
qed

text \<open>
  C2, as the code has it. For a track whose events are all in presented form, the
  encoder succeeds, the parser accepts the track body it wrote, and the presented events
  are the original ones up to merging each run of TimeDelta events into their 64-bit sum,
  dropping the sums that are 0, and dropping the TimeDelta events that follow the last
  other event. When the track is empty or ends in an event other than a TimeDelta, this
  is the normal form of the spec.
\<close>

theorem encode_parse_roundtrip:
  assumes "\<forall>e\<in>set evts. presentedEvent e"
  shows "(\<exists>body raws. encodeEvents evts = Inr body \<and> parseTrackBody body = Inr raws
            \<and> presentEvents raws [] = Inr (mergeTimeDeltasBeforeEvents 0 evts))
       \<and> (evts = [] \<or> (\<forall>t. last evts \<noteq> TimeDelta t)
            \<longrightarrow> mergeTimeDeltasBeforeEvents 0 evts = mergeTimeDeltas 0 evts)"
proof
  have "state newEventDataParser = wantEvent" "eventData newEventDataParser = []"
    "events newEventDataParser = []"
    by (simp_all add: newEventDataParser_def)
  with parseTrackBodyLoop_encoded [OF assms, of newEventDataParser "[]" 0 0 "[]"]
  show "\<exists>body raws. encodeEvents evts = Inr body \<and> parseTrackBody body = Inr raws
            \<and> presentEvents raws [] = Inr (mergeTimeDeltasBeforeEvents 0 evts)"
    by (simp add: encodeEvents_def parseTrackBody_def)
  show "evts = [] \<or> (\<forall>t. last evts \<noteq> TimeDelta t)
            \<longrightarrow> mergeTimeDeltasBeforeEvents 0 evts = mergeTimeDeltas 0 evts"
    using mergeTimeDeltasBeforeEvents_last [of evts 0] by (cases "evts = []") auto
qed

text \<open>
  The theorem at a track with a NoteOn, a SysEx event and an end of track, with deltas
  before, between and after them, and at a track that ends in its end of track.
\<close>

theorem encode_parse_roundtrip_witness:
  "(\<exists>body raws.
      encodeEvents
        [TimeDelta 100,
         Midi \<lparr>MType = NoteOn, RawType = 0x93, Channel = 3, Key = 0x3C, Velocity = 0x7F,
               ControllerNumber = 0, ControllerValue = 0, ProgramNumber = 0,
               RawData = Some [0x3C, 0x7F]\<rparr>,
         TimeDelta 0, TimeDelta 50,
         Sysex [0xF0, 0x41, 0xF7],
         Meta \<lparr>Type = 0x2F, Data = []\<rparr>,
         TimeDelta 7] = Inr body
    \<and> parseTrackBody body = Inr raws
    \<and> presentEvents raws [] =
        Inr [TimeDelta 100,
             Midi \<lparr>MType = NoteOn, RawType = 0x93, Channel = 3, Key = 0x3C, Velocity = 0x7F,
                   ControllerNumber = 0, ControllerValue = 0, ProgramNumber = 0,
                   RawData = Some [0x3C, 0x7F]\<rparr>,
             TimeDelta 50,
             Sysex [0xF0, 0x41, 0xF7],
             Meta \<lparr>Type = 0x2F, Data = []\<rparr>])
   \<and> mergeTimeDeltasBeforeEvents 0 [TimeDelta 3, Meta \<lparr>Type = 0x2F, Data = []\<rparr>]
       = mergeTimeDeltas 0 [TimeDelta 3, Meta \<lparr>Type = 0x2F, Data = []\<rparr>]"
proof -
  have m: "presentedMIDIEvent
     \<lparr>MType = NoteOn, RawType = 0x93, Channel = 3, Key = 0x3C, Velocity = 0x7F,
       ControllerNumber = 0, ControllerValue = 0, ProgramNumber = 0,
       RawData = Some [0x3C, 0x7F]\<rparr>"
    by (simp add: presentedMIDIEvent_def midiEventSpecs_def drop_bit_eq_div presentEvent_def
        expectLen_def rawAt_def Let_def)
  show ?thesis
    using encode_parse_roundtrip [of
        "[TimeDelta 100,
          Midi \<lparr>MType = NoteOn, RawType = 0x93, Channel = 3, Key = 0x3C, Velocity = 0x7F,
                ControllerNumber = 0, ControllerValue = 0, ProgramNumber = 0,
                RawData = Some [0x3C, 0x7F]\<rparr>,
          TimeDelta 0, TimeDelta 50,
          Sysex [0xF0, 0x41, 0xF7],
          Meta \<lparr>Type = 0x2F, Data = []\<rparr>,
          TimeDelta 7]"]
      encode_parse_roundtrip [of "[TimeDelta 3, Meta \<lparr>Type = 0x2F, Data = []\<rparr>]"]
      m
    by simp
qed

text \<open>
  C2 as stated fails. A track of one TimeDelta is written as no byte at all and read
  back as the empty list. A NoteOn of velocity 0 comes back as a NoteOff of velocity 64.
  A NoteOn without raw bytes, as \<open>SimpleWriter\<close> makes them, comes back with its raw bytes
  and status byte filled in. A SysEx event whose first byte is not a framing byte is
  written, and the parser rejects what was written.
\<close>

theorem encode_parse_roundtrip_counterexample:
  "encodeEvents [TimeDelta 5] = Inr []
   \<and> parseTrackBody [] = Inr []
   \<and> presentEvents [] [] = Inr []
   \<and> mergeTimeDeltas 0 [] \<noteq> mergeTimeDeltas 0 [TimeDelta 5]
   \<and> encodeEvents
        [Midi \<lparr>MType = NoteOn, RawType = 0x90, Channel = 0, Key = 0x3C, Velocity = 0,
               ControllerNumber = 0, ControllerValue = 0, ProgramNumber = 0,
               RawData = Some [0x3C, 0x00]\<rparr>] = Inr [0x00, 0x90, 0x3C, 0x00]
   \<and> parseTrackBody [0x00, 0x90, 0x3C, 0x00]
       = Inr [\<lparr>kind = midiEvent, typeByte = 0x90, data = [0x3C, 0x00], timeDelta = 0\<rparr>]
   \<and> presentEvents
        [\<lparr>kind = midiEvent, typeByte = 0x90, data = [0x3C, 0x00], timeDelta = 0\<rparr>] []
       = Inr [Midi \<lparr>MType = NoteOff, RawType = 0x90, Channel = 0, Key = 0x3C, Velocity = 0x40,
                    ControllerNumber = 0, ControllerValue = 0, ProgramNumber = 0,
                    RawData = Some [0x3C, 0x00]\<rparr>]
   \<and> encodeEvents
        [Midi \<lparr>MType = NoteOn, RawType = 0, Channel = 0, Key = 0x3C, Velocity = 0x40,
               ControllerNumber = 0, ControllerValue = 0, ProgramNumber = 0,
               RawData = None\<rparr>] = Inr [0x00, 0x90, 0x3C, 0x40]
   \<and> parseTrackBody [0x00, 0x90, 0x3C, 0x40]
       = Inr [\<lparr>kind = midiEvent, typeByte = 0x90, data = [0x3C, 0x40], timeDelta = 0\<rparr>]
   \<and> presentEvents
        [\<lparr>kind = midiEvent, typeByte = 0x90, data = [0x3C, 0x40], timeDelta = 0\<rparr>] []
       = Inr [Midi \<lparr>MType = NoteOn, RawType = 0x90, Channel = 0, Key = 0x3C, Velocity = 0x40,
                    ControllerNumber = 0, ControllerValue = 0, ProgramNumber = 0,
                    RawData = Some [0x3C, 0x40]\<rparr>]
   \<and> encodeEvents [Sysex [0x41]] = Inr [0x00, 0x41, 0x00]
   \<and> parseTrackBody [0x00, 0x41, 0x00]
       = Inl (ErrorParsingEvent (AfterConsuming 0 (UnknownRunningStatus 0)))"
  by (simp add: encodeEvents_def MIDIEvent_EncodeMIDI_def SysexEvent_EncodeMIDI_def
      encodeVarint_def
      parseTrackBody_def parseTrackBodyLoop.simps readVarint_def readSingleEvent_def
      feedByte_def feedByteInternal_def newEventDataParser_def Let_def
      feedMIDIDataByte_def midiEventSpecs_def drop_bit_eq_div
      presentEvent_def expectLen_def rawAt_def)

end
